theory Spec2Isabelle
  imports Main
begin

section \<open>Errors and results\<close>

text \<open>
  The source's \<^verbatim>\<open>Result<R, E>\<close> (result.ts) is the sum \<open>error + 'r\<close>:
  \<open>Inl\<close> is \<^verbatim>\<open>Err\<close>, \<open>Inr\<close> is \<^verbatim>\<open>Ok\<close>.  Its \<^verbatim>\<open>Option<T>\<close>
  (option.ts) is \<open>'t option\<close>.  \<^verbatim>\<open>unwrap\<close> on an \<^verbatim>\<open>Err\<close> throws the
  error value, \<^verbatim>\<open>unwrap\<close> on a \<^verbatim>\<open>None\<close> throws
  \<^verbatim>\<open>Error("Tried to unwrap a None")\<close>; a thrown value is again an \<open>Inl\<close>
  of the function that throws.  \<open>TypeError\<close> is what JavaScript throws when a property
  of \<^verbatim>\<open>undefined\<close> is read; \<open>ToposortError\<close> is an error thrown by the
  toposort package.
\<close>

datatype error =
    DriverError string
  | UnwrapNone
  | TypeError
  | ToposortError

definition unwrap_option :: "'a option \<Rightarrow> error + 'a" where
  "unwrap_option v = (case v of None \<Rightarrow> Inl UnwrapNone | Some x \<Rightarrow> Inr x)"

section \<open>The destination connection\<close>

text \<open>
  The SQL texts the merge driver builds are kept as structured values, one constructor
  for each template of merge.ts and data.ts; the values spliced into a template are the
  texts the source splices.

  \<^item> \<open>InsertRow t cols vals joins\<close> is the statement
    \<^verbatim>\<open>INSERT INTO "t" (cols) SELECT vals FROM (SELECT 1) AS dummy joins LIMIT 1\<close>,
    a join \<open>(m, v)\<close> being \<^verbatim>\<open>LEFT JOIN m ON m.old_id = v\<close>;
  \<^item> \<open>InsertMap t old new\<close> is
    \<^verbatim>\<open>INSERT INTO "t" (old_id, new_id) VALUES (old, new)\<close>, with \<open>old\<close> and
    \<open>new\<close> the two SQL literals as written into the text.
\<close>

datatype stmt =
    InsertRow string "string list" "string list" "(string \<times> string) list"
  | InsertMap string string string

text \<open>
  A probe \<open>Probe t pk joins wheres\<close> is the text of \<^verbatim>\<open>checkSqlTemplate\<close> after
  the placeholders have been replaced: \<^verbatim>\<open>SELECT quote(pk) AS pk FROM "t" joins WHERE
  wheres LIMIT 1\<close>, a join \<open>(m, c)\<close> being \<^verbatim>\<open>JOIN m ON "t"."c" = m.new_id\<close> and
  a where \<open>(lhs, v)\<close> being \<^verbatim>\<open>lhs = v\<close>.  The source replaces the placeholder
  \<^verbatim>\<open>?i\<close> in the text by the value; here the value is paired with the left-hand
  side the placeholder stands next to.
\<close>

datatype probe = Probe string string "(string \<times> string) list" "(string \<times> string) list"

datatype sql =
    Batch "stmt list"
  | CreateMapTable string
  | CreateMapIndices string
  | DropMapTable string
  | FastPragmas
  | SafePragmas
  | Ddl string
  | Vacuum

text \<open>
  A row delivered by the driver is a JavaScript object: a finite map from column names
  to the selected texts.  Reading a missing property gives \<^verbatim>\<open>undefined\<close>, which a
  template literal renders as the text \<^verbatim>\<open>undefined\<close>.
\<close>

type_synonym row = "string \<rightharpoonup> string"

text \<open>The row of a \<^verbatim>\<open>COUNT\<close> query holds numbers.\<close>

type_synonym num_row = "string \<rightharpoonup> int"

definition js_prop :: "row \<Rightarrow> string \<Rightarrow> string" where
  "js_prop r k = (case r k of None \<Rightarrow> ''undefined'' | Some v \<Rightarrow> v)"

text \<open>
  The destination database is seen through its driver only.  Its state is the history
  of the commands submitted to it: \<open>Exec q\<close> for a text the driver executed,
  \<open>Failed q\<close> for one it answered with an error, \<open>Get q\<close> and \<open>Check t\<close> for the
  two kinds of select.  What the driver answers to a command is a function of that
  history and of the command, which is any deterministic driver.
\<close>

datatype command = Exec sql | Failed sql | Get probe | Check string

type_synonym history = "command list"

record driver =
  exec_outcome :: "history \<Rightarrow> sql \<Rightarrow> error option"
  get_outcome :: "history \<Rightarrow> probe \<Rightarrow> error + row option"
  check_outcome :: "history \<Rightarrow> string \<Rightarrow> error + num_row option"

text \<open>connection.ts, \<^verbatim>\<open>Connection.exec\<close>: the driver's exception becomes an \<^verbatim>\<open>Err\<close>.\<close>

definition exec :: "driver \<Rightarrow> history \<Rightarrow> sql \<Rightarrow> history \<times> (error + unit)" where
  "exec drv h q =
     (case exec_outcome drv h q of
        None \<Rightarrow> (h @ [Exec q], Inr ())
      | Some e \<Rightarrow> (h @ [Failed q], Inl e))"

text \<open>\<^verbatim>\<open>Connection.execOrError\<close>: unwraps the result, so an \<^verbatim>\<open>Err\<close> is thrown.\<close>

definition execOrError :: "driver \<Rightarrow> history \<Rightarrow> sql \<Rightarrow> history \<times> (error + unit)" where
  "execOrError drv h q = exec drv h q"

text \<open>\<^verbatim>\<open>Connection.get\<close>: a row, no row, or the driver's exception as an \<^verbatim>\<open>Err\<close>.\<close>

definition get :: "driver \<Rightarrow> history \<Rightarrow> probe \<Rightarrow> history \<times> (error + row option)" where
  "get drv h q = (h @ [Get q], get_outcome drv h q)"

text \<open>
  The same \<^verbatim>\<open>Connection.get\<close>, for the foreign-key check of a table
  (\<^verbatim>\<open>SELECT COUNT(*) FROM pragma_foreign_key_check('t')\<close>).
\<close>

definition get_check ::
  "driver \<Rightarrow> history \<Rightarrow> string \<Rightarrow> history \<times> (error + num_row option)" where
  "get_check drv h t = (h @ [Check t], check_outcome drv h t)"

section \<open>The source connections\<close>

text \<open>
  The queries sent to an input database: the count of a model's rows
  (\<^verbatim>\<open>SELECT COUNT(pk) AS count FROM "t" WHERE 1\<close>), the select of its rows
  (\<^verbatim>\<open>SELECT "pk" AS unquotedPk, quote("pk") AS "pk", quote("t"."c") AS c, ... FROM
  "t" WHERE 1\<close>), and the catalog (\<^verbatim>\<open>SELECT sql FROM sqlite_master\<close>).

  An input database is never written, so its driver answers a query the same way each
  time: a count query gives an error, no row, or a row with its \<^verbatim>\<open>count\<close>; a
  streamed query gives, one after the other, a row or an error for each call of the
  row callback, and at the end possibly the error that rejects the whole call.
\<close>

datatype query =
    CountRows string string
  | SelectRows string string "string list"
  | SelectCatalog

record source =
  count_outcome :: "query \<Rightarrow> error + nat option"
  each_outcome :: "query \<Rightarrow> (error + row) list \<times> error option"

text \<open>
  \<^verbatim>\<open>Connection.each\<close>, with the callbacks run one after the other, each to its
  end, as the rows arrive.  The state \<open>'s\<close> is what the callbacks read and write.  A
  rejected call of the driver's \<^verbatim>\<open>each\<close> is thrown first; otherwise the error of
  the first callback that throws.
\<close>

fun run_callbacks ::
  "('s \<Rightarrow> error + row \<Rightarrow> error + 's) \<Rightarrow> 's \<Rightarrow> (error + row) list \<Rightarrow> error + 's" where
  "run_callbacks callback st [] = Inr st"
| "run_callbacks callback st (r # rs) =
     (case callback st r of
        Inl e \<Rightarrow> Inl e
      | Inr st' \<Rightarrow> run_callbacks callback st' rs)"

definition each ::
  "source \<Rightarrow> query \<Rightarrow> ('s \<Rightarrow> error + row \<Rightarrow> error + 's) \<Rightarrow> 's \<Rightarrow> error + 's" where
  "each conn q callback st =
     (case each_outcome conn q of
        (rows, Some e) \<Rightarrow> Inl e
      | (rows, None) \<Rightarrow> run_callbacks callback st rows)"

section \<open>The insert batcher\<close>

text \<open>
  \<^verbatim>\<open>InsertManager\<close>: the buffer of pending statements, the count of the regular
  ones among them, and the threshold (a JavaScript number; an integer here).  Every
  operation returns the manager as the call leaves it, the destination's history, and
  either the number it returns or the error it throws.
\<close>

record InsertManager =
  statements :: "stmt list"
  count :: nat
  threshold :: int

definition new_InsertManager :: "int \<Rightarrow> InsertManager" where
  "new_InsertManager t = \<lparr>statements = [], count = 0, threshold = t\<rparr>"

definition flush ::
  "driver \<Rightarrow> InsertManager \<Rightarrow> history \<Rightarrow> InsertManager \<times> history \<times> (error + nat)" where
  "flush drv im h =
     (let batch = Batch (statements im);
          im1 = im\<lparr>statements := []\<rparr>;
          c = count im1;
          im2 = im1\<lparr>count := 0\<rparr>;
          (h', r) = execOrError drv h batch
      in (im2, h', case r of Inl e \<Rightarrow> Inl e | Inr _ \<Rightarrow> Inr c))"

definition maybeFlush ::
  "driver \<Rightarrow> InsertManager \<Rightarrow> history \<Rightarrow> InsertManager \<times> history \<times> (error + nat)" where
  "maybeFlush drv im h =
     (if threshold im \<le> int (length (statements im)) then flush drv im h
      else (im, h, Inr 0))"

definition insert_stmt ::
  "driver \<Rightarrow> InsertManager \<Rightarrow> history \<Rightarrow> stmt \<Rightarrow> InsertManager \<times> history \<times> (error + nat)" where
  "insert_stmt drv im h s =
     maybeFlush drv (im\<lparr>statements := statements im @ [s], count := count im + 1\<rparr>) h"

definition insertSupporting ::
  "driver \<Rightarrow> InsertManager \<Rightarrow> history \<Rightarrow> stmt \<Rightarrow> InsertManager \<times> history \<times> (error + nat)" where
  "insertSupporting drv im h s =
     maybeFlush drv (im\<lparr>statements := statements im @ [s]\<rparr>) h"

text \<open>
  The count never exceeds the number of pending statements: it counts the regular ones.
\<close>

definition im_inv :: "InsertManager \<Rightarrow> bool" where
  "im_inv im = (count im \<le> length (statements im))"

text \<open>
  The public operations of the batcher, and a run of them from the constructor: the
  manager and the history after the run, and the numbers the calls returned (a call
  that throws returns none; the manager stays as the call left it).
\<close>

datatype im_op = Insert stmt | InsertSupporting stmt | Flush

definition apply_op :: "driver \<Rightarrow> InsertManager \<Rightarrow> history \<Rightarrow> im_op \<Rightarrow>
    InsertManager \<times> history \<times> (error + nat)" where
  "apply_op drv im h op =
     (case op of
        Insert s \<Rightarrow> insert_stmt drv im h s
      | InsertSupporting s \<Rightarrow> insertSupporting drv im h s
      | Flush \<Rightarrow> flush drv im h)"

fun run_ops :: "driver \<Rightarrow> InsertManager \<Rightarrow> history \<Rightarrow> im_op list \<Rightarrow>
    InsertManager \<times> history \<times> nat list" where
  "run_ops drv im h [] = (im, h, [])"
| "run_ops drv im h (op # ops) =
     (case apply_op drv im h op of
        (im', h', r) \<Rightarrow>
          (case run_ops drv im' h' ops of
             (im'', h'', rs) \<Rightarrow>
               (im'', h'', (case r of Inl e \<Rightarrow> [] | Inr n \<Rightarrow> [n]) @ rs)))"

fun is_Insert :: "im_op \<Rightarrow> bool" where
  "is_Insert (Insert s) = True"
| "is_Insert _ = False"

definition never_fails :: "driver \<Rightarrow> bool" where
  "never_fails drv = (\<forall>h q. exec_outcome drv h q = None)"

section \<open>The schema (data.ts)\<close>

text \<open>
  \<^verbatim>\<open>Relation.fields\<close> is \<open>fields_rel\<close> here (a record has a constant \<open>fields\<close> of
  its own).
\<close>

record Relation =
  fields_rel :: "string list"
  references :: "string list"

record ColumnType =
  name :: string
  collection :: bool
  nullable :: bool

record Column =
  name :: string
  ty :: ColumnType
  relation :: "Relation option"
  unique :: bool
  primary_key :: bool

record Unique =
  columnNames :: "string list"

text \<open>
  A \<^verbatim>\<open>Model\<close> holds its name, its columns and its unique constraint; the map
  table and the index of the primary key are set by the constructor from the name and
  the columns, and are functions of the model here.
\<close>

record Model =
  name :: string
  columns :: "Column list"
  unique :: "Unique option"

text \<open>
  \<^verbatim>\<open>Schema.models\<close> is a JavaScript \<^verbatim>\<open>Map\<close>: its entries in the order of
  insertion, one for each key.
\<close>

record Schema =
  models :: "(string \<times> Model) list"

definition has :: "Schema \<Rightarrow> string \<Rightarrow> bool" where
  "has schema k = (k \<in> set (map fst (models schema)))"

definition get_model :: "Schema \<Rightarrow> string \<Rightarrow> Model option" where
  "get_model schema k = map_of (models schema) k"

definition hasRelation :: "Column \<Rightarrow> bool" where
  "hasRelation c = (relation c \<noteq> None)"

text \<open>The first column of the model whose relation lists this column among its fields.\<close>

definition getRelatedColumn :: "Column \<Rightarrow> Model \<Rightarrow> Column option" where
  "getRelatedColumn c model =
     find (\<lambda>column. case relation column of
                      None \<Rightarrow> False
                    | Some r \<Rightarrow> Column.name c \<in> set (fields_rel r))
          (columns model)"

definition isRegular :: "Column \<Rightarrow> Schema \<Rightarrow> bool" where
  "isRegular c schema =
     (\<not> primary_key c \<and> \<not> collection (ty c) \<and> \<not> hasRelation c
      \<and> \<not> has schema (ColumnType.name (ty c)))"

text \<open>The constructor's loop keeps the last column flagged as primary key.\<close>

fun primaryKeyIndex_loop :: "Column list \<Rightarrow> nat \<Rightarrow> nat option \<Rightarrow> nat option" where
  "primaryKeyIndex_loop [] idx acc = acc"
| "primaryKeyIndex_loop (column # cs) idx acc =
     primaryKeyIndex_loop cs (idx + 1) (if primary_key column then Some idx else acc)"

definition primaryKeyIndex :: "Model \<Rightarrow> nat option" where
  "primaryKeyIndex model = primaryKeyIndex_loop (columns model) 0 None"

definition primaryKey :: "Model \<Rightarrow> Column option" where
  "primaryKey model =
     (case primaryKeyIndex model of
        None \<Rightarrow> None
      | Some i \<Rightarrow> Some (columns model ! i))"

definition getCol :: "Model \<Rightarrow> string \<Rightarrow> Column option" where
  "getCol model n = find (\<lambda>column. Column.name column = n) (columns model)"

text \<open>\<^verbatim>\<open>MapTable.name\<close> of the model's \<^verbatim>\<open>mapTable\<close>.\<close>

definition mapTable_name :: "Model \<Rightarrow> string" where
  "mapTable_name model = Model.name model @ ''_id_map''"

text \<open>
  \<^verbatim>\<open>Model.verifyIntegrity\<close>.  The result is the error thrown, or the
  \<^verbatim>\<open>Result<void, number>\<close> returned: \<open>Inl n\<close> is \<^verbatim>\<open>Err(n)\<close>, \<open>Inr ()\<close> is
  \<^verbatim>\<open>Ok()\<close>.  A row without a \<^verbatim>\<open>count\<close> property gives \<^verbatim>\<open>undefined\<close>, and
  \<^verbatim>\<open>undefined > 0\<close> is false.
\<close>

definition verifyIntegrity ::
  "driver \<Rightarrow> history \<Rightarrow> Model \<Rightarrow> history \<times> (error + (int + unit))" where
  "verifyIntegrity drv h model =
     (case get_check drv h (Model.name model) of
        (h', Inl e) \<Rightarrow> (h', Inr (Inr ()))
      | (h', Inr None) \<Rightarrow> (h', Inl UnwrapNone)
      | (h', Inr (Some r)) \<Rightarrow>
          (case r ''count'' of
             None \<Rightarrow> (h', Inr (Inr ()))
           | Some c \<Rightarrow> if c > 0 then (h', Inr (Inl c)) else (h', Inr (Inr ()))))"

text \<open>\<^verbatim>\<open>MapTable.createInto\<close>, \<^verbatim>\<open>createIndices\<close> and \<^verbatim>\<open>dropFrom\<close>.\<close>

definition createInto :: "driver \<Rightarrow> history \<Rightarrow> Model \<Rightarrow> history \<times> (error + unit)" where
  "createInto drv h model = execOrError drv h (CreateMapTable (mapTable_name model))"

definition createIndices :: "driver \<Rightarrow> history \<Rightarrow> Model \<Rightarrow> history \<times> (error + unit)" where
  "createIndices drv h model = execOrError drv h (CreateMapIndices (mapTable_name model))"

definition dropFrom :: "driver \<Rightarrow> history \<Rightarrow> Model \<Rightarrow> history \<times> (error + unit)" where
  "dropFrom drv h model = execOrError drv h (DropMapTable (mapTable_name model))"

subsection \<open>The topological scheduler\<close>

text \<open>
  The edges \<^verbatim>\<open>Schema.sortedModels\<close> collects: one for each column with a relation
  whose type names a model of the schema, from the column's model to that model.
\<close>

definition column_edges :: "Schema \<Rightarrow> Model \<Rightarrow> Column \<Rightarrow> (string \<times> string) list" where
  "column_edges schema model column =
     (if relation column \<noteq> None
      then (case get_model schema (ColumnType.name (ty column)) of
              None \<Rightarrow> []
            | Some childModel \<Rightarrow> [(Model.name model, Model.name childModel)])
      else [])"

definition edges :: "Schema \<Rightarrow> (string \<times> string) list" where
  "edges schema =
     concat (map (\<lambda>(k, model). concat (map (column_edges schema model) (columns model)))
                 (models schema))"

text \<open>
  \<^verbatim>\<open>toposort.array\<close> comes from the toposort package, which is not part of the
  repository: it is the parameter \<open>toposort_array\<close>, a function from the nodes and
  the edges to the sorted nodes or the error it throws.  A name the map does not hold
  gives \<^verbatim>\<open>undefined\<close>, which is \<open>None\<close> in the result.
\<close>

type_synonym toposort = "string list \<Rightarrow> (string \<times> string) list \<Rightarrow> error + string list"

definition sortedModels :: "toposort \<Rightarrow> Schema \<Rightarrow> error + Model option list" where
  "sortedModels toposort_array schema =
     (case toposort_array (map (\<lambda>(k, model). Model.name model) (models schema)) (edges schema) of
        Inl e \<Rightarrow> Inl e
      | Inr modelNames \<Rightarrow> Inr (rev (map (get_model schema) modelNames)))"

section \<open>The per-model merge driver (merge.ts)\<close>

text \<open>A text between single quotes, as the templates write \<^verbatim>\<open>'${oldPk}'\<close>.\<close>

definition quote_lit :: "string \<Rightarrow> string" where
  "quote_lit s = [CHR 0x27] @ s @ [CHR 0x27]"

text \<open>
  \<^verbatim>\<open>checkSqlTemplate\<close>: \<open>Template pk t joins wheres\<close> is the text with its
  placeholders, the \<open>i\<close>-th where being \<^verbatim>\<open>lhs = ?i\<close> (the loop adds one where for
  each column of the unique constraint, in order).
\<close>

datatype template = Template string string "(string \<times> string) list" "string list"

fun checkClauses ::
  "Model \<Rightarrow> string list \<Rightarrow> (string \<times> string) list \<times> string list \<Rightarrow>
     error + (string \<times> string) list \<times> string list" where
  "checkClauses model [] acc = Inr acc"
| "checkClauses model (n # ns) (checkJoins, checkWheres) =
     (case getCol model n of
        None \<Rightarrow> Inl UnwrapNone
      | Some col \<Rightarrow>
          (case getRelatedColumn col model of
             Some relatedColumn \<Rightarrow>
               checkClauses model ns
                 (checkJoins @ [(ColumnType.name (ty relatedColumn) @ ''_id_map'', Column.name col)],
                  checkWheres @ [ColumnType.name (ty relatedColumn) @ ''_id_map.old_id''])
           | None \<Rightarrow> checkClauses model ns (checkJoins, checkWheres @ [n])))"

definition checkSqlTemplate :: "Model \<Rightarrow> Column \<Rightarrow> error + template option" where
  "checkSqlTemplate model pk =
     (case Model.unique model of
        None \<Rightarrow> Inr None
      | Some u \<Rightarrow>
          (case checkClauses model (columnNames u) ([], []) of
             Inl e \<Rightarrow> Inl e
           | Inr (checkJoins, checkWheres) \<Rightarrow>
               Inr (Some (Template (Column.name pk) (Model.name model)
                            checkJoins checkWheres))))"

text \<open>The placeholders replaced by the row's values of the unique constraint's columns.\<close>

fun checkSql :: "template \<Rightarrow> string list \<Rightarrow> row \<Rightarrow> probe" where
  "checkSql (Template pk t checkJoins checkWheres) names r =
     Probe t pk checkJoins (zip checkWheres (map (js_prop r) names))"

text \<open>
  The loop over the model's columns that builds the \<^verbatim>\<open>INSERT\<close>: a column with a
  related column is translated through the map table of the related column's type; a
  regular column is copied; any other column is left out.
\<close>

fun insertClauses ::
  "Model \<Rightarrow> Schema \<Rightarrow> row \<Rightarrow> Column list \<Rightarrow>
     string list \<times> string list \<times> (string \<times> string) list \<Rightarrow>
     string list \<times> string list \<times> (string \<times> string) list" where
  "insertClauses model schema r [] acc = acc"
| "insertClauses model schema r (column # cs) (selectColumns, selectValues, joinStatements) =
     (case getRelatedColumn column model of
        Some relatedColumn \<Rightarrow>
          insertClauses model schema r cs
            (selectColumns @ [Column.name column],
             selectValues @ [ColumnType.name (ty relatedColumn) @ ''_id_map.new_id''],
             joinStatements @
               [(ColumnType.name (ty relatedColumn) @ ''_id_map'', js_prop r (Column.name column))])
      | None \<Rightarrow>
          (if isRegular column schema
           then insertClauses model schema r cs
                  (selectColumns @ [Column.name column],
                   selectValues @ [js_prop r (Column.name column)],
                   joinStatements)
           else insertClauses model schema r cs (selectColumns, selectValues, joinStatements)))"

definition insert_sql :: "Model \<Rightarrow> Schema \<Rightarrow> Column \<Rightarrow> row \<Rightarrow> string \<Rightarrow> stmt" where
  "insert_sql model schema pk r newPk =
     (case insertClauses model schema r (columns model)
             ([Column.name pk], [quote_lit newPk], []) of
        (selectColumns, selectValues, joinStatements) \<Rightarrow>
          InsertRow (Model.name model) selectColumns selectValues joinStatements)"

text \<open>
  What the row callbacks of one model's merge read and write: the batcher, the
  destination, the number of identifiers minted so far (\<^verbatim>\<open>crypto.randomUUID()\<close> is
  the parameter \<open>uuid\<close>: its \<open>k\<close>-th call returns \<open>uuid k\<close>), and the numbers
  passed to \<^verbatim>\<open>progress.inc\<close>, in order.  Both progress reporters receive the same
  calls, so \<^verbatim>\<open>showProgress\<close> is left out.
\<close>

record merge_state =
  inserter :: InsertManager
  merged :: history
  minted :: nat
  progress :: "nat list"

text \<open>
  The existence check of the row callback: the probe is sent for a row of a secondary
  when the model has a template; a row found gives its primary key as the existing key.
  An \<^verbatim>\<open>Err\<close> of the probe is passed over by \<^verbatim>\<open>and\<close>.
\<close>

definition existenceCheck ::
  "driver \<Rightarrow> Model \<Rightarrow> Column \<Rightarrow> template option \<Rightarrow> bool \<Rightarrow> history \<Rightarrow> row \<Rightarrow>
     error + history \<times> string option" where
  "existenceCheck drv model pk tmpl isSecondary h r =
     (if isSecondary
      then (case tmpl of
              None \<Rightarrow> Inr (h, None)
            | Some t \<Rightarrow>
                (case Model.unique model of
                   None \<Rightarrow> Inl UnwrapNone
                 | Some u \<Rightarrow>
                     (case get drv h (checkSql t (columnNames u) r) of
                        (h', Inl e) \<Rightarrow> Inr (h', None)
                      | (h', Inr None) \<Rightarrow> Inr (h', None)
                      | (h', Inr (Some existingRow)) \<Rightarrow>
                          Inr (h', Some (js_prop existingRow (Column.name pk))))))
      else Inr (h, None))"

text \<open>The callback given to \<^verbatim>\<open>conn.each\<close> in \<^verbatim>\<open>mergeModel\<close>.\<close>

definition processRow ::
  "driver \<Rightarrow> (nat \<Rightarrow> string) \<Rightarrow> Model \<Rightarrow> Schema \<Rightarrow> Column \<Rightarrow> template option \<Rightarrow> bool \<Rightarrow>
     merge_state \<Rightarrow> error + row \<Rightarrow> error + merge_state" where
  "processRow drv uuid model schema pk tmpl isPrimary st rowResult =
     (case rowResult of
        Inl e \<Rightarrow> Inr st
      | Inr r \<Rightarrow>
          (let oldPk = js_prop r ''unquotedPk'' in
           case existenceCheck drv model pk tmpl (\<not> isPrimary) (merged st) r of
             Inl e \<Rightarrow> Inl e
           | Inr (h1, Some existingId) \<Rightarrow>
               (case insert_stmt drv (inserter st) h1
                       (InsertMap (mapTable_name model) (quote_lit oldPk) existingId) of
                  (im, h2, Inl e) \<Rightarrow> Inl e
                | (im, h2, Inr n) \<Rightarrow>
                    Inr (st\<lparr>inserter := im, merged := h2, progress := progress st @ [n]\<rparr>))
           | Inr (h1, None) \<Rightarrow>
               (let newPk = (if isPrimary then oldPk else uuid (minted st));
                    minted' = (if isPrimary then minted st else minted st + 1)
                in case insert_stmt drv (inserter st) h1
                          (insert_sql model schema pk r newPk) of
                     (im, h2, Inl e) \<Rightarrow> Inl e
                   | (im, h2, Inr n) \<Rightarrow>
                       (case insertSupporting drv im h2
                               (InsertMap (mapTable_name model) (quote_lit oldPk)
                                  (quote_lit newPk)) of
                          (im', h3, Inl e) \<Rightarrow> Inl e
                        | (im', h3, Inr n') \<Rightarrow>
                            Inr (st\<lparr>inserter := im', merged := h3, minted := minted',
                                    progress := progress st @ [n, n']\<rparr>)))))"

text \<open>
  The loop that counts the model's rows in each connection: the total, and the primary
  (its position in \<^verbatim>\<open>connections\<close>, the first one at the start) with its count.
\<close>

fun selectPrimary ::
  "query \<Rightarrow> source list \<Rightarrow> nat \<Rightarrow> nat \<times> nat \<times> nat \<Rightarrow> error + nat \<times> nat \<times> nat" where
  "selectPrimary cq [] i acc = Inr acc"
| "selectPrimary cq (conn # conns) i (totalRows, primary, primaryCount) =
     (case count_outcome conn cq of
        Inl e \<Rightarrow> Inl e
      | Inr None \<Rightarrow> Inl UnwrapNone
      | Inr (Some c) \<Rightarrow>
          selectPrimary cq conns (i + 1)
            (totalRows + c,
             if c > primaryCount then i else primary,
             if c > primaryCount then c else primaryCount))"

text \<open>
  \<^verbatim>\<open>sortedConnections\<close>, as positions in \<^verbatim>\<open>connections\<close>: the primary, then
  every connection that is not the primary.  The connections are distinct objects, so
  \<^verbatim>\<open>conn !== primary\<close> compares positions.
\<close>

definition sortedConnections :: "nat \<Rightarrow> source list \<Rightarrow> nat list" where
  "sortedConnections primary connections =
     primary # filter (\<lambda>i. i \<noteq> primary) [0..<length connections]"

text \<open>
  One round of the loop over \<^verbatim>\<open>sortedConnections\<close>: the rows of the connection,
  then a flush.  With no connection at all the primary is \<^verbatim>\<open>undefined\<close>.
\<close>

definition mergeSource ::
  "driver \<Rightarrow> (nat \<Rightarrow> string) \<Rightarrow> Model \<Rightarrow> Schema \<Rightarrow> Column \<Rightarrow> template option \<Rightarrow> query \<Rightarrow>
     source list \<Rightarrow> nat \<Rightarrow> merge_state \<Rightarrow> nat \<Rightarrow> error + merge_state" where
  "mergeSource drv uuid model schema pk tmpl sq connections primary st i =
     (if i < length connections
      then (case each (connections ! i) sq
                   (processRow drv uuid model schema pk tmpl (i = primary)) st of
              Inl e \<Rightarrow> Inl e
            | Inr st' \<Rightarrow>
                (case flush drv (inserter st') (merged st') of
                   (im, h, Inl e) \<Rightarrow> Inl e
                 | (im, h, Inr n) \<Rightarrow>
                     Inr (st'\<lparr>inserter := im, merged := h, progress := progress st' @ [n]\<rparr>)))
      else Inl TypeError)"

fun mergeSources ::
  "driver \<Rightarrow> (nat \<Rightarrow> string) \<Rightarrow> Model \<Rightarrow> Schema \<Rightarrow> Column \<Rightarrow> template option \<Rightarrow> query \<Rightarrow>
     source list \<Rightarrow> nat \<Rightarrow> merge_state \<Rightarrow> nat list \<Rightarrow> error + merge_state" where
  "mergeSources drv uuid model schema pk tmpl sq connections primary st [] =
     Inr st"
| "mergeSources drv uuid model schema pk tmpl sq connections primary st (i # is) =
     (case mergeSource drv uuid model schema pk tmpl sq connections primary st i of
        Inl e \<Rightarrow> Inl e
      | Inr st' \<Rightarrow>
          mergeSources drv uuid model schema pk tmpl sq connections primary st' is)"

text \<open>
  The \<^verbatim>\<open>selectQuery\<close> and the \<^verbatim>\<open>countQuery\<close> of \<^verbatim>\<open>mergeModel\<close>; the columns
  selected besides the primary key are \<^verbatim>\<open>colsToCopy\<close>, the regular ones.
\<close>

definition selectQuery :: "Model \<Rightarrow> Schema \<Rightarrow> Column \<Rightarrow> query" where
  "selectQuery model schema pk =
     SelectRows (Column.name pk) (Model.name model)
       (map Column.name (filter (\<lambda>column. isRegular column schema) (columns model)))"

definition countQuery :: "Model \<Rightarrow> Column \<Rightarrow> query" where
  "countQuery model pk = CountRows (Column.name pk) (Model.name model)"

text \<open>
  What a merge of one model leaves: the destination, the number of identifiers minted,
  the numbers passed to \<^verbatim>\<open>progress.inc\<close>, the progress total, and the order in which
  the connections were read.
\<close>

record merge_result =
  r_merged :: history
  r_minted :: nat
  r_progress :: "nat list"
  r_totalRows :: nat
  r_order :: "nat list"

definition mergeModel ::
  "driver \<Rightarrow> (nat \<Rightarrow> string) \<Rightarrow> Model \<Rightarrow> Schema \<Rightarrow> source list \<Rightarrow> int \<Rightarrow> history \<Rightarrow> nat \<Rightarrow>
     error + merge_result" where
  "mergeModel drv uuid model schema connections minInserts h0 k0 =
     (case createInto drv h0 model of
        (h1, Inl e) \<Rightarrow> Inl e
      | (h1, Inr _) \<Rightarrow>
     (case unwrap_option (primaryKey model) of
        Inl e \<Rightarrow> Inl e
      | Inr pk \<Rightarrow>
     (case checkSqlTemplate model pk of
        Inl e \<Rightarrow> Inl e
      | Inr tmpl \<Rightarrow>
     (case selectPrimary (countQuery model pk) connections 0 (0, 0, 0) of
        Inl e \<Rightarrow> Inl e
      | Inr (totalRows, primary, primaryCount) \<Rightarrow>
     (case mergeSources drv uuid model schema pk tmpl (selectQuery model schema pk)
             connections primary
             \<lparr>inserter = new_InsertManager minInserts, merged = h1, minted = k0, progress = []\<rparr>
             (sortedConnections primary connections) of
        Inl e \<Rightarrow> Inl e
      | Inr st \<Rightarrow>
     (case flush drv (inserter st) (merged st) of
        (im, h2, Inl e) \<Rightarrow> Inl e
      | (im, h2, Inr n) \<Rightarrow>
     (case createIndices drv h2 model of
        (h3, Inl e) \<Rightarrow> Inl e
      | (h3, Inr _) \<Rightarrow>
          Inr \<lparr>r_merged = h3, r_minted = minted st, r_progress = progress st @ [n],
               r_totalRows = totalRows,
               r_order = sortedConnections primary connections\<rparr>)))))))"

section \<open>The orchestrator (merge.ts)\<close>

text \<open>The loop of \<^verbatim>\<open>prismerge\<close> over the sorted models.\<close>

fun mergeModels ::
  "driver \<Rightarrow> (nat \<Rightarrow> string) \<Rightarrow> Schema \<Rightarrow> source list \<Rightarrow> int \<Rightarrow>
     history \<times> nat \<times> merge_result list \<Rightarrow> Model option list \<Rightarrow>
     error + history \<times> nat \<times> merge_result list" where
  "mergeModels drv uuid schema connections minInserts acc [] = Inr acc"
| "mergeModels drv uuid schema connections minInserts (h, k, results) (currentModel # order) =
     (case currentModel of
        None \<Rightarrow> Inl TypeError
      | Some model \<Rightarrow>
          (case mergeModel drv uuid model schema connections minInserts h k of
             Inl e \<Rightarrow> Inl e
           | Inr res \<Rightarrow>
               mergeModels drv uuid schema connections minInserts
                 (r_merged res, r_minted res, results @ [res]) order))"

text \<open>
  The callback that copies the catalog of the first input: an \<^verbatim>\<open>Err\<close> is unwrapped
  and thrown; a row whose \<^verbatim>\<open>sql\<close> is null or empty is passed over.
\<close>

definition copyCatalogRow :: "driver \<Rightarrow> history \<Rightarrow> error + row \<Rightarrow> error + history" where
  "copyCatalogRow drv h result =
     (case result of
        Inl e \<Rightarrow> Inl e
      | Inr r \<Rightarrow>
          (case r ''sql'' of
             None \<Rightarrow> Inr h
           | Some text \<Rightarrow>
               (if text = [] then Inr h
                else (case execOrError drv h (Ddl text) of
                        (h', Inl e) \<Rightarrow> Inl e
                      | (h', Inr _) \<Rightarrow> Inr h'))))"

definition prismerge ::
  "driver \<Rightarrow> (nat \<Rightarrow> string) \<Rightarrow> toposort \<Rightarrow> Schema \<Rightarrow> source list \<Rightarrow> int \<Rightarrow> history \<Rightarrow> nat \<Rightarrow>
     error + history \<times> nat \<times> merge_result list" where
  "prismerge drv uuid toposort_array schema connections minInserts h0 k0 =
     (case sortedModels toposort_array schema of
        Inl e \<Rightarrow> Inl e
      | Inr order \<Rightarrow>
     (case execOrError drv h0 FastPragmas of
        (h1, Inl e) \<Rightarrow> Inl e
      | (h1, Inr _) \<Rightarrow>
     (case connections of
        [] \<Rightarrow> Inl TypeError
      | conn0 # _ \<Rightarrow>
     (case each conn0 SelectCatalog (copyCatalogRow drv) h1 of
        Inl e \<Rightarrow> Inl e
      | Inr h2 \<Rightarrow>
     (case mergeModels drv uuid schema connections minInserts (h2, k0, []) order of
        Inl e \<Rightarrow> Inl e
      | Inr (h3, k, results) \<Rightarrow>
     (case execOrError drv h3 SafePragmas of
        (h4, Inl e) \<Rightarrow> Inl e
      | (h4, Inr _) \<Rightarrow> Inr (h4, k, results)))))))"

text \<open>
  The integrity loop of \<^verbatim>\<open>merge\<close>: the lines printed are kept as pairs of the
  table's name and the count.
\<close>

fun verifyAll ::
  "driver \<Rightarrow> history \<Rightarrow> (string \<times> int) list \<Rightarrow> (string \<times> Model) list \<Rightarrow>
     error + history \<times> (string \<times> int) list" where
  "verifyAll drv h printed [] = Inr (h, printed)"
| "verifyAll drv h printed ((k, currentModel) # ms) =
     (case verifyIntegrity drv h currentModel of
        (h', Inl e) \<Rightarrow> Inl e
      | (h', Inr integrity) \<Rightarrow>
          verifyAll drv h'
            (case integrity of
               Inl n \<Rightarrow> printed @ [(Model.name currentModel, n)]
             | Inr _ \<Rightarrow> printed)
            ms)"

section \<open>What a history and a state hold\<close>









text \<open>The rows a stream delivers, the errors left out.\<close>

fun ok_rows :: "(error + row) list \<Rightarrow> row list" where
  "ok_rows [] = []"
| "ok_rows (Inl e # rs) = ok_rows rs"
| "ok_rows (Inr r # rs) = r # ok_rows rs"




text \<open>An input database with the failed reads taken out of its streams.\<close>

definition skip_row_errors :: "source \<Rightarrow> source" where
  "skip_row_errors conn =
     conn\<lparr>each_outcome :=
            (\<lambda>q. (map Inr (ok_rows (fst (each_outcome conn q))), snd (each_outcome conn q)))\<rparr>"

section \<open>The toposort package\<close>

text \<open>
  Modelled from the spec: \<^verbatim>\<open>toposort.array\<close> belongs to the toposort package, a
  dependency whose source is missing from the repository.  The spec (4.1) wants from the
  scheduler every referenced model before the models that reference it, and
  \<^verbatim>\<open>Schema.sortedModels\<close> reverses what the package returns; so the package is
  expected, for distinct nodes and edges between them that form no cycle, to return the
  nodes, each once, with the source of every edge before its target.
\<close>

fun precedes :: "'a \<Rightarrow> 'a \<Rightarrow> 'a list \<Rightarrow> bool" where
  "precedes a b [] = False"
| "precedes a b (x # xs) = (if x = a then b \<in> set xs else precedes a b xs)"

definition toposort_contract :: "toposort \<Rightarrow> bool" where
  "toposort_contract ts =
     (\<forall>nodes es.
        distinct nodes \<longrightarrow> (\<forall>(a, b) \<in> set es. a \<in> set nodes \<and> b \<in> set nodes) \<longrightarrow>
        acyclic (set es) \<longrightarrow>
        (\<exists>srt. ts nodes es = Inr srt \<and> distinct srt \<and> set srt = set nodes
           \<and> (\<forall>(a, b) \<in> set es. precedes a b srt)))"

text \<open>
  Modelled from the spec: the package's function itself is missing from the repository;
  this is the depth-first algorithm of its version 2, for distinct nodes, kept here to
  show that the contract can be met.  There is a visit from every node, the last node
  first.  A visit throws when the node is among its
  predecessors on the path (a cycle) or is not a node; it returns at once when the node
  was visited; otherwise it marks the node, visits the targets of the node's edges (a
  set in the order of insertion, read from its end), and writes the node in front of
  the nodes sorted so far.  The state is the visited nodes and the sorted nodes.
\<close>

definition children :: "(string \<times> string) list \<Rightarrow> string \<Rightarrow> string list" where
  "children es n = remdups (rev (map snd (filter (\<lambda>e. fst e = n) es)))"

function visit ::
    "string list \<Rightarrow> (string \<times> string) list \<Rightarrow> string \<Rightarrow> string list \<Rightarrow>
       string list \<times> string list \<Rightarrow> error + string list \<times> string list"
  and visit_all ::
    "string list \<Rightarrow> (string \<times> string) list \<Rightarrow> string list \<Rightarrow> string list \<Rightarrow>
       string list \<times> string list \<Rightarrow> error + string list \<times> string list" where
  "visit nodes es n preds (visited, srt) =
     (if n \<in> set preds then Inl ToposortError
      else if n \<notin> set nodes then Inl ToposortError
      else if n \<in> set visited then Inr (visited, srt)
      else (case visit_all nodes es (children es n) (n # preds) (n # visited, srt) of
              Inl e \<Rightarrow> Inl e
            | Inr (visited', srt') \<Rightarrow> Inr (visited', n # srt')))"
| "visit_all nodes es [] preds st = Inr st"
| "visit_all nodes es (c # cs) preds st =
     (case visit nodes es c preds st of
        Inl e \<Rightarrow> Inl e
      | Inr st' \<Rightarrow> visit_all nodes es cs preds st')"
  by pat_completeness auto
termination
proof (relation "inv_image (less_than <*lex*> less_than)
    (\<lambda>x. case x of
       Inl (nodes, es, n, preds, st) \<Rightarrow> (card (set nodes - set preds), 0)
     | Inr (nodes, es, cs, preds, st) \<Rightarrow> (card (set nodes - set preds), Suc (length cs)))")
  show "wf (inv_image (less_than <*lex*> less_than)
    (\<lambda>x. case x of
       Inl (nodes, es, n, preds, st) \<Rightarrow> (card (set nodes - set preds), 0::nat)
     | Inr (nodes, es, cs, preds, st) \<Rightarrow> (card (set nodes - set preds), Suc (length cs))))"
    by (intro wf_inv_image wf_lex_prod wf_less_than)
next
  fix nodes :: "string list" and es :: "(string \<times> string) list" and n preds
    and visited srt :: "string list"
  assume "n \<notin> set preds" and "\<not> n \<notin> set nodes"
  then have "set nodes - set (n # preds) \<subset> set nodes - set preds" by auto
  then have "card (set nodes - set (n # preds)) < card (set nodes - set preds)"
    by (intro psubset_card_mono) simp_all
  then show "(Inr (nodes, es, children es n, n # preds, n # visited, srt),
         Inl (nodes, es, n, preds, visited, srt))
       \<in> inv_image (less_than <*lex*> less_than)
    (\<lambda>x. case x of
       Inl (nodes, es, n, preds, st) \<Rightarrow> (card (set nodes - set preds), 0)
     | Inr (nodes, es, cs, preds, st) \<Rightarrow> (card (set nodes - set preds), Suc (length cs)))"
    by simp
qed simp_all

definition toposort_array :: toposort where
  "toposort_array nodes es =
     (if \<exists>e \<in> set es. fst e \<notin> set nodes \<or> snd e \<notin> set nodes then Inl ToposortError
      else (case visit_all nodes es (rev nodes) [] ([], []) of
              Inl e \<Rightarrow> Inl e
            | Inr (visited, srt) \<Rightarrow> Inr srt))"

text \<open>
  What holds of the state between two visits, the predecessors on the path given: the
  visited nodes are the sorted ones and the predecessors; the sorted nodes are distinct
  nodes, none of them a predecessor, and the edges of each of them lead to nodes sorted
  behind it.
\<close>

definition topo_inv ::
  "string list \<Rightarrow> (string \<times> string) list \<Rightarrow> string list \<Rightarrow> string list \<times> string list \<Rightarrow> bool" where
  "topo_inv nodes es preds st =
     (case st of
        (visited, srt) \<Rightarrow>
          set visited = set srt \<union> set preds \<and> distinct srt \<and> set srt \<inter> set preds = {}
          \<and> set srt \<subseteq> set nodes
          \<and> (\<forall>(a, b) \<in> set es. a \<in> set srt \<longrightarrow> precedes a b srt))"

text \<open>
  A schema as \<^verbatim>\<open>getSchema\<close> builds it: every model stands under its own name.
\<close>

definition wf_schema :: "Schema \<Rightarrow> bool" where
  "wf_schema schema =
     (distinct (map fst (models schema))
      \<and> (\<forall>(k, model) \<in> set (models schema). Model.name model = k))"

text \<open>
  The part of a history that one merge of a model writes: it starts with the creation
  of the model's map table and ends with the creation of that table's indices.
\<close>

definition merge_segment :: "Model \<Rightarrow> history \<Rightarrow> bool" where
  "merge_segment model seg =
     (2 \<le> length seg
      \<and> hd seg = Exec (CreateMapTable (mapTable_name model))
      \<and> last seg = Exec (CreateMapIndices (mapTable_name model)))"

text \<open>
  The creations of map tables and of their indices in a history: the start and the end
  of each merge of a model.
\<close>

fun marker :: "command \<Rightarrow> command list" where
  "marker (Exec (CreateMapTable t)) = [Exec (CreateMapTable t)]"
| "marker (Exec (CreateMapIndices t)) = [Exec (CreateMapIndices t)]"
| "marker c = []"

definition markers :: "history \<Rightarrow> command list" where
  "markers h = concat (map marker h)"

section \<open>The schema of the test suite\<close>

text \<open>
  The schema of \<^verbatim>\<open>__tests__/schema.ts\<close>: an \<^verbatim>\<open>Owner\<close> with a unique name, and a
  \<^verbatim>\<open>TodoList\<close> that belongs to an owner, unique by name and owner.
\<close>

definition string_type :: ColumnType where
  "string_type = \<lparr>ColumnType.name = ''String'', collection = False, nullable = False\<rparr>"

definition owner_model :: Model where
  "owner_model =
     \<lparr>Model.name = ''Owner'',
      columns =
        [\<lparr>Column.name = ''id'', ty = string_type, relation = None,
          Column.unique = False, primary_key = True\<rparr>,
         \<lparr>Column.name = ''name'', ty = string_type, relation = None,
          Column.unique = False, primary_key = False\<rparr>],
      Model.unique = Some \<lparr>columnNames = [''name'']\<rparr>\<rparr>"

definition todoList_model :: Model where
  "todoList_model =
     \<lparr>Model.name = ''TodoList'',
      columns =
        [\<lparr>Column.name = ''id'', ty = string_type, relation = None,
          Column.unique = False, primary_key = True\<rparr>,
         \<lparr>Column.name = ''name'', ty = string_type, relation = None,
          Column.unique = False, primary_key = False\<rparr>,
         \<lparr>Column.name = ''ownerId'', ty = string_type, relation = None,
          Column.unique = False, primary_key = False\<rparr>,
         \<lparr>Column.name = ''owner'',
          ty = \<lparr>ColumnType.name = ''Owner'', collection = False, nullable = False\<rparr>,
          relation = Some \<lparr>fields_rel = [''ownerId''], references = [''id'']\<rparr>,
          Column.unique = False, primary_key = False\<rparr>],
      Model.unique = Some \<lparr>columnNames = [''name'', ''ownerId'']\<rparr>\<rparr>"

definition test_schema :: Schema where
  "test_schema = \<lparr>models = [(''Owner'', owner_model), (''TodoList'', todoList_model)]\<rparr>"

text \<open>
  A destination that accepts every command, finds no row, and counts no foreign-key
  violation.
\<close>

definition ok_driver :: driver where
  "ok_driver =
     \<lparr>exec_outcome = (\<lambda>h q. None), get_outcome = (\<lambda>h q. Inr None),
      check_outcome = (\<lambda>h t. Inr (Some [''count'' \<mapsto> 0]))\<rparr>"

text \<open>An owner's row as the select of the merge driver delivers it.\<close>

definition owner_row :: "string \<Rightarrow> string \<Rightarrow> row" where
  "owner_row i n =
     [''unquotedPk'' \<mapsto> i, ''id'' \<mapsto> quote_lit i, ''name'' \<mapsto> quote_lit n]"

text \<open>A destination whose foreign-key check fails with a driver error.\<close>

definition check_fails_driver :: driver where
  "check_fails_driver =
     \<lparr>exec_outcome = (\<lambda>h q. None), get_outcome = (\<lambda>h q. Inr None),
      check_outcome = (\<lambda>h t. Inl (DriverError ''no such table''))\<rparr>"

text \<open>
  An input database that answers every count query with \<open>n\<close> and streams \<open>rs\<close> for
  every select.
\<close>

definition table_source :: "nat \<Rightarrow> (error + row) list \<Rightarrow> source" where
  "table_source n rs =
     \<lparr>count_outcome = (\<lambda>q. Inr (Some n)), each_outcome = (\<lambda>q. (rs, None))\<rparr>"

text \<open>
  The two input databases of the first test: Woody in the first, Jessie and Bo in the
  second; and a generator of identifiers.
\<close>

definition first_db :: source where
  "first_db = table_source 1 [Inr (owner_row ''w'' ''Woody'')]"

definition second_db :: source where
  "second_db = table_source 2 [Inr (owner_row ''j'' ''Jessie''), Inr (owner_row ''b'' ''Bo'')]"

definition test_uuid :: "nat \<Rightarrow> string" where
  "test_uuid k = ''uuid'' @ replicate k (CHR ''+'')"

text \<open>
  The primary key of \<^verbatim>\<open>Owner\<close> and its probe template; a destination whose probe
  finds a row with the key \<^verbatim>\<open>'x'\<close>; the state of a merge at its start.
\<close>

definition id_column :: Column where
  "id_column =
     \<lparr>Column.name = ''id'', ty = string_type, relation = None,
      Column.unique = False, primary_key = True\<rparr>"





definition faulty_db :: source where
  "faulty_db =
     table_source 2 [Inl (DriverError ''disk I/O error''), Inr (owner_row ''w'' ''Woody'')]"

section \<open>Properties of the insert batcher\<close>

lemma flush_eq:
  "flush drv im h =
     (case exec_outcome drv h (Batch (statements im)) of
        None \<Rightarrow>
          (im\<lparr>statements := [], count := 0\<rparr>, h @ [Exec (Batch (statements im))],
           Inr (count im))
      | Some e \<Rightarrow>
          (im\<lparr>statements := [], count := 0\<rparr>, h @ [Failed (Batch (statements im))], Inl e))"
  by (simp add: flush_def execOrError_def exec_def Let_def split: option.split)

lemma im_inv_new: "im_inv (new_InsertManager t)"
  by (simp add: im_inv_def new_InsertManager_def)

lemma im_inv_flush: "im_inv (fst (flush drv im h))"
  by (simp add: flush_eq im_inv_def split: option.split)

lemma im_inv_insert_stmt: "im_inv im \<Longrightarrow> im_inv (fst (insert_stmt drv im h s))"
  by (simp add: insert_stmt_def maybeFlush_def flush_eq im_inv_def split: option.split)

lemma im_inv_insertSupporting: "im_inv im \<Longrightarrow> im_inv (fst (insertSupporting drv im h s))"
  by (simp add: insertSupporting_def maybeFlush_def flush_eq im_inv_def split: option.split)

lemma insert_stmt_eq:
  "insert_stmt drv im h s =
     (if threshold im \<le> int (length (statements im)) + 1
      then (case exec_outcome drv h (Batch (statements im @ [s])) of
              None \<Rightarrow>
                (im\<lparr>statements := [], count := 0\<rparr>,
                 h @ [Exec (Batch (statements im @ [s]))], Inr (count im + 1))
            | Some e \<Rightarrow>
                (im\<lparr>statements := [], count := 0\<rparr>,
                 h @ [Failed (Batch (statements im @ [s]))], Inl e))
      else (im\<lparr>statements := statements im @ [s], count := count im + 1\<rparr>, h, Inr 0))"
  by (simp add: insert_stmt_def maybeFlush_def flush_eq split: option.split)

lemma insertSupporting_eq:
  "insertSupporting drv im h s =
     (if threshold im \<le> int (length (statements im)) + 1
      then (case exec_outcome drv h (Batch (statements im @ [s])) of
              None \<Rightarrow>
                (im\<lparr>statements := [], count := 0\<rparr>,
                 h @ [Exec (Batch (statements im @ [s]))], Inr (count im))
            | Some e \<Rightarrow>
                (im\<lparr>statements := [], count := 0\<rparr>,
                 h @ [Failed (Batch (statements im @ [s]))], Inl e))
      else (im\<lparr>statements := statements im @ [s]\<rparr>, h, Inr 0))"
  by (simp add: insertSupporting_def maybeFlush_def flush_eq split: option.split)

lemma im_inv_apply_op:
  "im_inv im \<Longrightarrow> apply_op drv im h op = (im', h', r) \<Longrightarrow> im_inv im'"
  by (cases op) (auto simp: apply_op_def insert_stmt_eq insertSupporting_eq flush_eq im_inv_def
      split: if_splits option.splits)

lemma im_inv_run_ops:
  "im_inv im \<Longrightarrow> run_ops drv im h ops = (im', h', rs) \<Longrightarrow> im_inv im'"
proof (induction ops arbitrary: im h im' h' rs)
  case Nil
  then show ?case by simp
next
  case (Cons op ops)
  obtain im1 h1 r where a: "apply_op drv im h op = (im1, h1, r)"
    by (cases "apply_op drv im h op") auto
  obtain im2 h2 rs2 where b: "run_ops drv im1 h1 ops = (im2, h2, rs2)"
    by (cases "run_ops drv im1 h1 ops") auto
  from Cons.prems(2) a b have "im2 = im'" by simp
  with Cons.IH [OF im_inv_apply_op [OF Cons.prems(1) a] b] show ?case by simp
qed

lemma apply_op_count:
  assumes "never_fails drv" and "apply_op drv im h op = (im', h', r)"
  shows "\<exists>n. r = Inr n \<and> n + count im' = count im + (if is_Insert op then 1 else 0)"
  using assms
  by (cases op) (auto simp: apply_op_def insert_stmt_eq insertSupporting_eq flush_eq never_fails_def
      split: if_splits)

lemma run_ops_count:
  "never_fails drv \<Longrightarrow> run_ops drv im h ops = (im', h', rs) \<Longrightarrow>
   sum_list rs + count im' = count im + length (filter is_Insert ops)"
proof (induction ops arbitrary: im h im' h' rs)
  case Nil
  then show ?case by simp
next
  case (Cons op ops)
  obtain im1 h1 r where a: "apply_op drv im h op = (im1, h1, r)"
    by (cases "apply_op drv im h op") auto
  obtain im2 h2 rs2 where b: "run_ops drv im1 h1 ops = (im2, h2, rs2)"
    by (cases "run_ops drv im1 h1 ops") auto
  from apply_op_count [OF Cons.prems(1) a] obtain n where
    n: "r = Inr n" "n + count im1 = count im + (if is_Insert op then 1 else 0)" by blast
  from Cons.prems(2) a b n have e: "im' = im2" "rs = n # rs2" by simp_all
  from Cons.IH [OF Cons.prems(1) b] have "sum_list rs2 + count im2 = count im1 + length (filter is_Insert ops)" .
  with n e show ?case by (auto split: if_splits)
qed

text \<open>
  Claim C6.  In every state the batcher reaches from its constructor through
  \<^verbatim>\<open>insert\<close>, \<^verbatim>\<open>insertSupporting\<close> and \<^verbatim>\<open>flush\<close>: \<^verbatim>\<open>insert\<close> appends the
  statement and adds one to the count, \<^verbatim>\<open>insertSupporting\<close> appends and leaves the
  count; either flushes exactly when the number of pending statements, the new one
  included, is at least the threshold, and returns 0 when it does not flush;
  \<^verbatim>\<open>flush\<close> submits the pending statements as one batch, empties the buffer and
  returns the count, which it sets to zero; with an empty buffer the count is zero, so
  a flush then returns 0; and with a driver that never fails the numbers returned so
  far and the count add up to the number of \<^verbatim>\<open>insert\<close> calls.
\<close>

theorem insert_manager_contract:
  assumes "run_ops drv (new_InsertManager t) h0 ops = (im, h, rets)"
  shows
    "insert_stmt drv im h s =
       (if threshold im \<le> int (length (statements im)) + 1
        then (case exec_outcome drv h (Batch (statements im @ [s])) of
                None \<Rightarrow>
                  (im\<lparr>statements := [], count := 0\<rparr>,
                   h @ [Exec (Batch (statements im @ [s]))], Inr (count im + 1))
              | Some e \<Rightarrow>
                  (im\<lparr>statements := [], count := 0\<rparr>,
                   h @ [Failed (Batch (statements im @ [s]))], Inl e))
        else (im\<lparr>statements := statements im @ [s], count := count im + 1\<rparr>, h, Inr 0))
     \<and> insertSupporting drv im h s =
       (if threshold im \<le> int (length (statements im)) + 1
        then (case exec_outcome drv h (Batch (statements im @ [s])) of
                None \<Rightarrow>
                  (im\<lparr>statements := [], count := 0\<rparr>,
                   h @ [Exec (Batch (statements im @ [s]))], Inr (count im))
              | Some e \<Rightarrow>
                  (im\<lparr>statements := [], count := 0\<rparr>,
                   h @ [Failed (Batch (statements im @ [s]))], Inl e))
        else (im\<lparr>statements := statements im @ [s]\<rparr>, h, Inr 0))
     \<and> flush drv im h =
       (case exec_outcome drv h (Batch (statements im)) of
          None \<Rightarrow>
            (im\<lparr>statements := [], count := 0\<rparr>, h @ [Exec (Batch (statements im))],
             Inr (count im))
        | Some e \<Rightarrow>
            (im\<lparr>statements := [], count := 0\<rparr>, h @ [Failed (Batch (statements im))],
             Inl e))
     \<and> (statements im = [] \<longrightarrow> count im = 0)
     \<and> (never_fails drv \<longrightarrow> sum_list rets + count im = length (filter is_Insert ops))"
proof -
  have inv: "im_inv im"
    using im_inv_run_ops [OF im_inv_new assms] .
  have empty: "statements im = [] \<longrightarrow> count im = 0"
    using inv by (auto simp: im_inv_def)
  have total: "never_fails drv \<longrightarrow> sum_list rets + count im = length (filter is_Insert ops)"
    using run_ops_count [OF _ assms] by (simp add: new_InsertManager_def)
  show ?thesis
    using empty total insert_stmt_eq insertSupporting_eq flush_eq by blast
qed

theorem insert_manager_contract_witness:
  "run_ops ok_driver (new_InsertManager 3) []
      [Insert (InsertMap ''t'' ''a'' ''b''), InsertSupporting (InsertMap ''t'' ''c'' ''d''),
       Insert (InsertMap ''t'' ''e'' ''f''), Flush]
     = (\<lparr>statements = [], count = 0, threshold = 3\<rparr>,
        [Exec (Batch [InsertMap ''t'' ''a'' ''b'', InsertMap ''t'' ''c'' ''d'',
                      InsertMap ''t'' ''e'' ''f'']),
         Exec (Batch [])],
        [0, 0, 2, 0])
   \<and> insert_stmt ok_driver \<lparr>statements = [], count = 0, threshold = 3\<rparr>
        [Exec (Batch [InsertMap ''t'' ''a'' ''b'', InsertMap ''t'' ''c'' ''d'',
                      InsertMap ''t'' ''e'' ''f'']),
         Exec (Batch [])]
        (InsertMap ''t'' ''g'' ''h'')
     = (\<lparr>statements = [InsertMap ''t'' ''g'' ''h''], count = 1, threshold = 3\<rparr>,
        [Exec (Batch [InsertMap ''t'' ''a'' ''b'', InsertMap ''t'' ''c'' ''d'',
                      InsertMap ''t'' ''e'' ''f'']),
         Exec (Batch [])],
        Inr 0)
   \<and> flush ok_driver \<lparr>statements = [], count = 0, threshold = 3\<rparr>
        [Exec (Batch [InsertMap ''t'' ''a'' ''b'', InsertMap ''t'' ''c'' ''d'',
                      InsertMap ''t'' ''e'' ''f'']),
         Exec (Batch [])]
     = (\<lparr>statements = [], count = 0, threshold = 3\<rparr>,
        [Exec (Batch [InsertMap ''t'' ''a'' ''b'', InsertMap ''t'' ''c'' ''d'',
                      InsertMap ''t'' ''e'' ''f'']),
         Exec (Batch [])] @ [Exec (Batch [])],
        Inr 0)
   \<and> never_fails ok_driver
   \<and> sum_list [0, 0, 2, 0 :: nat] + 0 = length (filter is_Insert
      [Insert (InsertMap ''t'' ''a'' ''b''), InsertSupporting (InsertMap ''t'' ''c'' ''d''),
       Insert (InsertMap ''t'' ''e'' ''f''), Flush])"
proof -
  have run: "run_ops ok_driver (new_InsertManager 3) []
      [Insert (InsertMap ''t'' ''a'' ''b''), InsertSupporting (InsertMap ''t'' ''c'' ''d''),
       Insert (InsertMap ''t'' ''e'' ''f''), Flush]
     = (\<lparr>statements = [], count = 0, threshold = 3\<rparr>,
        [Exec (Batch [InsertMap ''t'' ''a'' ''b'', InsertMap ''t'' ''c'' ''d'',
                      InsertMap ''t'' ''e'' ''f'']),
         Exec (Batch [])],
        [0, 0, 2, 0])"
    by (simp add: new_InsertManager_def apply_op_def insert_stmt_eq insertSupporting_eq flush_eq
        ok_driver_def)
  have nf: "never_fails ok_driver"
    by (simp add: never_fails_def ok_driver_def)
  from insert_manager_contract [OF run, of "InsertMap ''t'' ''g'' ''h''"] run nf
  show ?thesis by (simp add: ok_driver_def)
qed


text \<open>
  Claim C9.  \<^verbatim>\<open>flush\<close> leaves the batcher with no pending statement and a zero
  count whatever the driver answers to the batch: the statements it held were
  submitted, and when the driver fails the call throws the driver's error and they are
  not kept.
\<close>

theorem flush_clears_before_exec:
  "statements (fst (flush drv im h)) = []
   \<and> count (fst (flush drv im h)) = 0
   \<and> snd (flush drv im h) =
       (case exec_outcome drv h (Batch (statements im)) of
          None \<Rightarrow> (h @ [Exec (Batch (statements im))], Inr (count im))
        | Some e \<Rightarrow> (h @ [Failed (Batch (statements im))], Inl e))"
  by (simp add: flush_eq split: option.split)

section \<open>The integrity check\<close>

lemma verifyIntegrity_Inl:
  "check_outcome drv h (Model.name model) = Inl e \<Longrightarrow>
   verifyIntegrity drv h model = (h @ [Check (Model.name model)], Inr (Inr ()))"
  by (simp add: verifyIntegrity_def get_check_def)

lemma verifyAll_printed_mono:
  "verifyAll drv h printed ms = Inr (h', printed') \<Longrightarrow>
   \<exists>new. printed' = printed @ new \<and>
     (\<forall>(t, n) \<in> set new. \<exists>hh r. check_outcome drv hh t = Inr (Some r))"
proof (induction ms arbitrary: h printed)
  case Nil
  then show ?case by simp
next
  case (Cons km ms)
  obtain k m where km: "km = (k, m)" by (cases km)
  obtain h1 res where v: "verifyIntegrity drv h m = (h1, res)" by (cases "verifyIntegrity drv h m")
  show ?case
  proof (cases res)
    case (Inl e)
    with Cons.prems km v show ?thesis by simp
  next
    case (Inr integrity)
    show ?thesis
    proof (cases integrity)
      case (Inl n)
      from v Inr Inl obtain r where r: "check_outcome drv h (Model.name m) = Inr (Some r)"
        by (auto simp: verifyIntegrity_def get_check_def split: sum.splits option.splits if_splits)
      from Cons.prems km v Inr Inl
      have "verifyAll drv h1 (printed @ [(Model.name m, n)]) ms = Inr (h', printed')" by simp
      from Cons.IH [OF this] obtain new where
        new: "printed' = (printed @ [(Model.name m, n)]) @ new"
          "\<forall>(t, n) \<in> set new. \<exists>hh r. check_outcome drv hh t = Inr (Some r)" by blast
      have "printed' = printed @ ((Model.name m, n) # new)" using new(1) by simp
      moreover have "\<forall>(t, n) \<in> set ((Model.name m, n) # new). \<exists>hh r. check_outcome drv hh t = Inr (Some r)"
        using new(2) r by auto
      ultimately show ?thesis by blast
    next
      case (Inr u)
      with Cons.prems km v \<open>res = Inr integrity\<close>
      have "verifyAll drv h1 printed ms = Inr (h', printed')" by simp
      from Cons.IH [OF this] show ?thesis .
    qed
  qed
qed

text \<open>
  Claim C10.  When the foreign-key check of a table fails with a driver error,
  \<^verbatim>\<open>Model.verifyIntegrity\<close> returns \<^verbatim>\<open>Ok\<close>, and the loop of \<^verbatim>\<open>merge\<close> goes on to
  the next model with nothing printed; the result is the one a clean table gives (a
  count of zero); and when the check of the table fails at every call, no line of the
  lines printed names the table.
\<close>

theorem verifyIntegrity_driver_error_is_ok:
  assumes "check_outcome drv h (Model.name model) = Inl e"
  shows "verifyIntegrity drv h model = (h @ [Check (Model.name model)], Inr (Inr ()))
     \<and> verifyAll drv h printed ((k, model) # ms) =
         verifyAll drv (h @ [Check (Model.name model)]) printed ms
     \<and> (check_outcome drv' h (Model.name model) = Inr (Some [''count'' \<mapsto> 0]) \<longrightarrow>
          verifyIntegrity drv' h model = verifyIntegrity drv h model)
     \<and> ((\<forall>hh. \<exists>e'. check_outcome drv hh (Model.name model) = Inl e') \<longrightarrow>
          verifyAll drv h0 [] ms' = Inr (h', printed') \<longrightarrow>
          (\<forall>n. (Model.name model, n) \<notin> set printed'))"
proof -
  have a: "verifyIntegrity drv h model = (h @ [Check (Model.name model)], Inr (Inr ()))"
    using assms by (rule verifyIntegrity_Inl)
  have b: "verifyAll drv h printed ((k, model) # ms) =
         verifyAll drv (h @ [Check (Model.name model)]) printed ms"
    by (simp add: a)
  have c: "check_outcome drv' h (Model.name model) = Inr (Some [''count'' \<mapsto> 0]) \<longrightarrow>
          verifyIntegrity drv' h model = verifyIntegrity drv h model"
    by (simp add: a) (simp add: verifyIntegrity_def get_check_def)
  have d: "(\<forall>hh. \<exists>e'. check_outcome drv hh (Model.name model) = Inl e') \<longrightarrow>
          verifyAll drv h0 [] ms' = Inr (h', printed') \<longrightarrow>
          (\<forall>n. (Model.name model, n) \<notin> set printed')"
  proof (intro impI allI notI)
    fix n
    assume f: "\<forall>hh. \<exists>e'. check_outcome drv hh (Model.name model) = Inl e'"
      and v: "verifyAll drv h0 [] ms' = Inr (h', printed')"
      and m: "(Model.name model, n) \<in> set printed'"
    from verifyAll_printed_mono [OF v] m
    obtain hh r where "check_outcome drv hh (Model.name model) = Inr (Some r)" by auto
    with f show False by (metis sum.distinct(1))
  qed
  from a b c d show ?thesis by blast
qed

theorem verifyIntegrity_driver_error_is_ok_witness:
  "check_outcome check_fails_driver [] (Model.name owner_model) = Inl (DriverError ''no such table'')
   \<and> verifyIntegrity check_fails_driver [] owner_model = ([Check ''Owner''], Inr (Inr ()))
   \<and> verifyAll check_fails_driver [] [] [(''Owner'', owner_model)] = Inr ([Check ''Owner''], [])
   \<and> check_outcome ok_driver [] (Model.name owner_model) = Inr (Some [''count'' \<mapsto> 0])
   \<and> verifyIntegrity ok_driver [] owner_model = ([Check ''Owner''], Inr (Inr ()))"
proof -
  have f: "check_outcome check_fails_driver [] (Model.name owner_model) = Inl (DriverError ''no such table'')"
    by (simp add: check_fails_driver_def)
  have c: "check_outcome ok_driver [] (Model.name owner_model) = Inr (Some [''count'' \<mapsto> 0])"
    by (simp add: ok_driver_def)
  have a: "\<forall>hh. \<exists>e'. check_outcome check_fails_driver hh (Model.name owner_model) = Inl e'"
    by (simp add: check_fails_driver_def)
  have v: "verifyAll check_fails_driver [] [] [(''Owner'', owner_model)] = Inr ([Check ''Owner''], [])"
    by (simp add: owner_model_def verifyIntegrity_def get_check_def check_fails_driver_def)
  from verifyIntegrity_driver_error_is_ok [OF f, where drv' = ok_driver and printed = "[]"
      and k = "''Owner''" and ms = "[]" and ?h0.0 = "[]" and ms' = "[(''Owner'', owner_model)]"
      and h' = "[Check ''Owner'']" and printed' = "[]"] f c a v
  show ?thesis
    by (simp add: owner_model_def)
qed

section \<open>The choice of the primary\<close>



lemma execOrError_eq:
  "execOrError drv h q =
     (case exec_outcome drv h q of
        None \<Rightarrow> (h @ [Exec q], Inr ())
      | Some e \<Rightarrow> (h @ [Failed q], Inl e))"
  by (simp add: execOrError_def exec_def)

lemma mergeModel_InrE:
  assumes "mergeModel drv uuid model schema conns T h0 k0 = Inr res"
  obtains pk tmpl t p pc st where
    "exec_outcome drv h0 (CreateMapTable (mapTable_name model)) = None"
    "primaryKey model = Some pk"
    "checkSqlTemplate model pk = Inr tmpl"
    "selectPrimary (countQuery model pk) conns 0 (0, 0, 0) = Inr (t, p, pc)"
    "mergeSources drv uuid model schema pk tmpl (selectQuery model schema pk) conns p
       \<lparr>inserter = new_InsertManager T, merged = h0 @ [Exec (CreateMapTable (mapTable_name model))],
        minted = k0, progress = []\<rparr>
       (sortedConnections p conns) = Inr st"
    "exec_outcome drv (merged st) (Batch (statements (inserter st))) = None"
    "exec_outcome drv (merged st @ [Exec (Batch (statements (inserter st)))])
       (CreateMapIndices (mapTable_name model)) = None"
    "res = \<lparr>r_merged = merged st @ [Exec (Batch (statements (inserter st))),
                           Exec (CreateMapIndices (mapTable_name model))],
            r_minted = minted st, r_progress = progress st @ [count (inserter st)],
            r_totalRows = t, r_order = sortedConnections p conns\<rparr>"
  using assms
  unfolding mergeModel_def createInto_def createIndices_def execOrError_eq flush_eq
    unwrap_option_def Let_def
  by (auto split: option.splits sum.splits prod.splits)


lemmas eval_defs = mergeModel_def selectQuery_def countQuery_def createInto_def createIndices_def execOrError_def exec_def
  unwrap_option_def primaryKey_def primaryKeyIndex_def checkSqlTemplate_def getCol_def
  getRelatedColumn_def isRegular_def has_def hasRelation_def mapTable_name_def
  sortedConnections_def mergeSource_def each_def processRow_def existenceCheck_def get_def
  insert_stmt_def insertSupporting_def maybeFlush_def flush_def new_InsertManager_def
  insert_sql_def js_prop_def quote_lit_def
  ok_driver_def owner_model_def test_schema_def first_db_def second_db_def table_source_def
  owner_row_def test_uuid_def string_type_def todoList_model_def Let_def


section \<open>The row callback\<close>








lemma existenceCheck_cases:
  assumes "existenceCheck drv model pk tmpl isSecondary h r = Inr (h1, ex)"
  obtains (skipped) "\<not> isSecondary \<or> tmpl = None" "h1 = h" "ex = None"
  | (probed) t u where "isSecondary" "tmpl = Some t" "Model.unique model = Some u"
      "h1 = h @ [Get (checkSql t (columnNames u) r)]"
      "ex = (case get_outcome drv h (checkSql t (columnNames u) r) of
               Inr (Some existingRow) \<Rightarrow> Some (js_prop existingRow (Column.name pk))
             | _ \<Rightarrow> None)"
  using assms
  by (auto simp: existenceCheck_def get_def split: if_splits option.splits sum.splits)



lemma processRow_Inl: "processRow drv uuid model schema pk tmpl isPrimary st (Inl e) = Inr st"
  by (simp add: processRow_def)


section \<open>The decisions of the row callback\<close>







section \<open>A whole merge of one model\<close>














section \<open>Batches\<close>







section \<open>Failed reads\<close>

lemma run_callbacks_skip_errors:
  "run_callbacks (processRow drv uuid model schema pk tmpl isPrimary) st rows =
   run_callbacks (processRow drv uuid model schema pk tmpl isPrimary) st (map Inr (ok_rows rows))"
proof (induction rows arbitrary: st)
  case Nil
  then show ?case by simp
next
  case (Cons x rows)
  then show ?case by (cases x) (simp_all add: processRow_Inl split: sum.splits)
qed

lemma mergeSource_skip_errors:
  "mergeSource drv uuid model schema pk tmpl q (map skip_row_errors conns) p st i =
   mergeSource drv uuid model schema pk tmpl q conns p st i"
proof (cases "i < length conns")
  case True
  obtain rows fin where eo: "each_outcome (conns ! i) q = (rows, fin)"
    by (cases "each_outcome (conns ! i) q")
  have "each_outcome (skip_row_errors (conns ! i)) q = (map Inr (ok_rows rows), fin)"
    by (simp add: skip_row_errors_def eo)
  with eo True run_callbacks_skip_errors [of drv uuid model schema pk tmpl "i = p" st rows]
  show ?thesis by (simp add: mergeSource_def each_def split: option.splits)
next
  case False
  then show ?thesis by (simp add: mergeSource_def)
qed

lemma mergeSources_skip_errors:
  "mergeSources drv uuid model schema pk tmpl q (map skip_row_errors conns) p st order =
   mergeSources drv uuid model schema pk tmpl q conns p st order"
  by (induction order arbitrary: st) (simp_all add: mergeSource_skip_errors split: sum.splits)

lemma selectPrimary_skip_errors:
  "selectPrimary q (map skip_row_errors conns) i acc = selectPrimary q conns i acc"
proof (induction conns arbitrary: i acc)
  case Nil
  then show ?case by simp
next
  case (Cons conn conns)
  obtain t p pc where acc: "acc = (t, p, pc)" by (cases acc)
  have "count_outcome (skip_row_errors conn) q = count_outcome conn q"
    by (simp add: skip_row_errors_def)
  with Cons show ?case by (simp add: acc split: sum.splits option.splits)
qed

text \<open>
  Claim C8, as the code has it.  A driver error delivered for a row while the rows of the
  model are streamed is passed over: the callback returns at once and leaves everything
  as it was, and the merge of the model gives what it gives when the failed reads are
  taken out of the streams.  An error that rejects the streaming call itself is thrown.
\<close>

theorem row_errors_are_skipped:
  "processRow drv uuid model schema pk tmpl isPrimary st (Inl e) = Inr st
   \<and> mergeModel drv uuid model schema conns T h0 k0 =
       mergeModel drv uuid model schema (map skip_row_errors conns) T h0 k0
   \<and> each (\<lparr>count_outcome = c, each_outcome = (\<lambda>q. (rows, Some e))\<rparr>) q' callback st0 = Inl e"
proof -
  have "mergeModel drv uuid model schema (map skip_row_errors conns) T h0 k0 =
       mergeModel drv uuid model schema conns T h0 k0"
    unfolding mergeModel_def selectPrimary_skip_errors mergeSources_skip_errors
      sortedConnections_def length_map
    by (rule refl)
  then show ?thesis
    by (simp add: processRow_Inl each_def)
qed

text \<open>
  An input database whose stream delivers a failed read and then Woody's row: the merge
  ends without an error, with Woody alone in the destination.
\<close>

theorem fatal_row_error_counterexample:
  "each_outcome faulty_db (selectQuery owner_model test_schema id_column) =
     ([Inl (DriverError ''disk I/O error''), Inr (owner_row ''w'' ''Woody'')], None)
   \<and> mergeModel ok_driver test_uuid owner_model test_schema [faulty_db] 1000 [] 0 =
     Inr \<lparr>r_merged =
            [Exec (CreateMapTable ''Owner_id_map''),
             Exec (Batch
               [InsertRow ''Owner'' [''id'', ''name''] [quote_lit ''w'', quote_lit ''Woody''] [],
                InsertMap ''Owner_id_map'' (quote_lit ''w'') (quote_lit ''w'')]),
             Exec (Batch []),
             Exec (CreateMapIndices ''Owner_id_map'')],
          r_minted = 0, r_progress = [0, 0, 1, 0], r_totalRows = 2, r_order = [0]\<rparr>"
  by (simp add: eval_defs faulty_db_def)

section \<open>The topological order\<close>

lemma set_children: "set (children es n) = {b. (n, b) \<in> set es}"
  by (force simp: children_def)

lemma precedes_decomp:
  "xs = pre @ a # post \<Longrightarrow> b \<in> set post \<Longrightarrow> precedes a b xs"
proof (induction pre arbitrary: xs)
  case Nil
  then show ?case by simp
next
  case (Cons x pre)
  then show ?case by (cases "x = a") auto
qed

lemma precedes_split:
  "precedes a b xs \<Longrightarrow> \<exists>pre post. xs = pre @ a # post \<and> b \<in> set post"
proof (induction xs)
  case Nil
  then show ?case by simp
next
  case (Cons x xs)
  show ?case
  proof (cases "x = a")
    case True
    with Cons.prems have "b \<in> set xs" by simp
    with True have "x # xs = [] @ a # xs \<and> b \<in> set xs" by simp
    then show ?thesis by blast
  next
    case False
    with Cons obtain pre post where "xs = pre @ a # post" "b \<in> set post" by auto
    then have "x # xs = (x # pre) @ a # post \<and> b \<in> set post" by simp
    then show ?thesis by blast
  qed
qed

lemma topo_inv_push:
  assumes "topo_inv nodes es preds (visited, srt)" and "n \<notin> set visited"
  shows "topo_inv nodes es (n # preds) (n # visited, srt)"
  using assms by (auto simp: topo_inv_def)

lemma topo_inv_pop:
  assumes inv: "topo_inv nodes es (n # preds) (visited', srt')"
    and n: "n \<in> set nodes" "n \<notin> set preds"
    and ch: "set (children es n) \<subseteq> set srt'"
  shows "topo_inv nodes es preds (visited', n # srt')"
proof -
  from inv have v: "set visited' = set srt' \<union> set (n # preds)"
    and d: "distinct srt'" and dj: "set srt' \<inter> set (n # preds) = {}"
    and sub: "set srt' \<subseteq> set nodes"
    and ord: "\<forall>(a, b) \<in> set es. a \<in> set srt' \<longrightarrow> precedes a b srt'"
    by (simp_all add: topo_inv_def)
  from dj have nn: "n \<notin> set srt'" by auto
  have "\<forall>(a, b) \<in> set es. a \<in> set (n # srt') \<longrightarrow> precedes a b (n # srt')"
  proof (clarify)
    fix a b assume e: "(a, b) \<in> set es" and a: "a \<in> set (n # srt')"
    show "precedes a b (n # srt')"
    proof (cases "a = n")
      case True
      with e have "b \<in> set (children es n)" by (simp add: set_children)
      with ch have "b \<in> set srt'" by blast
      with True show ?thesis by simp
    next
      case False
      with a have "a \<in> set srt'" by simp
      with ord e have "precedes a b srt'" by blast
      with False show ?thesis by simp
    qed
  qed
  with v d dj sub nn n show ?thesis by (auto simp: topo_inv_def)
qed

lemma visit_correct:
  shows "acyclic (set es) \<Longrightarrow> (\<forall>(a, b) \<in> set es. a \<in> set nodes \<and> b \<in> set nodes) \<Longrightarrow>
      topo_inv nodes es preds st \<Longrightarrow> n \<in> set nodes \<Longrightarrow>
      (\<forall>p \<in> set preds. (p, n) \<in> (set es)\<^sup>+) \<Longrightarrow>
      \<exists>visited' new. visit nodes es n preds st = Inr (visited', new @ snd st)
        \<and> topo_inv nodes es preds (visited', new @ snd st) \<and> n \<in> set (new @ snd st)"
    and "acyclic (set es) \<Longrightarrow> (\<forall>(a, b) \<in> set es. a \<in> set nodes \<and> b \<in> set nodes) \<Longrightarrow>
      topo_inv nodes es preds st \<Longrightarrow> set cs \<subseteq> set nodes \<Longrightarrow>
      (\<forall>c \<in> set cs. \<forall>p \<in> set preds. (p, c) \<in> (set es)\<^sup>+) \<Longrightarrow>
      \<exists>visited' new. visit_all nodes es cs preds st = Inr (visited', new @ snd st)
        \<and> topo_inv nodes es preds (visited', new @ snd st) \<and> set cs \<subseteq> set (new @ snd st)"
proof (induction nodes es n preds st and nodes es cs preds st rule: visit_visit_all.induct)
  case (1 nodes es n preds visited srt)
  note ac = "1.prems"(1) and within = "1.prems"(2) and inv = "1.prems"(3)
    and n = "1.prems"(4) and path = "1.prems"(5)
  have np: "n \<notin> set preds"
  proof
    assume "n \<in> set preds"
    with path have "(n, n) \<in> (set es)\<^sup>+" by blast
    with ac show False by (simp add: acyclic_def)
  qed
  show ?case
  proof (cases "n \<in> set visited")
    case True
    from inv True np have "n \<in> set srt" by (auto simp: topo_inv_def)
    with inv np n True have "visit nodes es n preds (visited, srt) = Inr (visited, [] @ snd (visited, srt))
        \<and> topo_inv nodes es preds (visited, [] @ snd (visited, srt))
        \<and> n \<in> set ([] @ snd (visited, srt))"
      by simp
    then show ?thesis by blast
  next
    case False
    have inv': "topo_inv nodes es (n # preds) (n # visited, srt)"
      using inv False by (rule topo_inv_push)
    have sub: "set (children es n) \<subseteq> set nodes"
      using within by (auto simp: set_children)
    have path': "\<forall>c \<in> set (children es n). \<forall>p \<in> set (n # preds). (p, c) \<in> (set es)\<^sup>+"
    proof (intro ballI)
      fix c p assume c: "c \<in> set (children es n)" and p: "p \<in> set (n # preds)"
      from c have e: "(n, c) \<in> set es" by (simp add: set_children)
      show "(p, c) \<in> (set es)\<^sup>+"
      proof (cases "p = n")
        case True
        with e show ?thesis by blast
      next
        case False
        with p path have "(p, n) \<in> (set es)\<^sup>+" by simp
        with e show ?thesis by (blast intro: trancl_into_trancl)
      qed
    qed
    from "1.IH" [OF np _ False ac within inv' sub path'] n
    obtain visited' new where
      r: "visit_all nodes es (children es n) (n # preds) (n # visited, srt) = Inr (visited', new @ srt)"
      and i: "topo_inv nodes es (n # preds) (visited', new @ srt)"
      and c: "set (children es n) \<subseteq> set (new @ srt)"
      by auto
    have "topo_inv nodes es preds (visited', n # new @ srt)"
      using i n np c by (rule topo_inv_pop)
    with r np n False have "visit nodes es n preds (visited, srt) = Inr (visited', (n # new) @ snd (visited, srt))
        \<and> topo_inv nodes es preds (visited', (n # new) @ snd (visited, srt))
        \<and> n \<in> set ((n # new) @ snd (visited, srt))"
      by simp
    then show ?thesis by blast
  qed
next
  case (2 nodes es preds st)
  then have "visit_all nodes es [] preds st = Inr (fst st, [] @ snd st)
      \<and> topo_inv nodes es preds (fst st, [] @ snd st) \<and> set [] \<subseteq> set ([] @ snd st)"
    by simp
  then show ?case by blast
next
  case (3 nodes es c cs preds st)
  note ac = "3.prems"(1) and within = "3.prems"(2) and inv = "3.prems"(3)
    and sub = "3.prems"(4) and path = "3.prems"(5)
  from "3.IH"(1) [OF ac within inv] sub path
  obtain v1 new1 where
    r1: "visit nodes es c preds st = Inr (v1, new1 @ snd st)"
    and i1: "topo_inv nodes es preds (v1, new1 @ snd st)"
    and c1: "c \<in> set (new1 @ snd st)"
    by auto
  from "3.IH"(2) [OF r1 ac within i1] sub path
  obtain v2 new2 where
    r2: "visit_all nodes es cs preds (v1, new1 @ snd st) = Inr (v2, new2 @ new1 @ snd st)"
    and i2: "topo_inv nodes es preds (v2, new2 @ new1 @ snd st)"
    and c2: "set cs \<subseteq> set (new2 @ new1 @ snd st)"
    by auto
  from r1 r2 i2 c1 c2
  have "visit_all nodes es (c # cs) preds st = Inr (v2, (new2 @ new1) @ snd st)
      \<and> topo_inv nodes es preds (v2, (new2 @ new1) @ snd st)
      \<and> set (c # cs) \<subseteq> set ((new2 @ new1) @ snd st)"
    by auto
  then show ?case by blast
qed

lemma toposort_array_contract: "toposort_contract toposort_array"
  unfolding toposort_contract_def
proof (intro allI impI)
  fix nodes :: "string list" and es :: "(string \<times> string) list"
  assume d: "distinct nodes"
    and within: "\<forall>(a, b) \<in> set es. a \<in> set nodes \<and> b \<in> set nodes"
    and ac: "acyclic (set es)"
  have inv0: "topo_inv nodes es [] ([], [])" by (simp add: topo_inv_def)
  from visit_correct(2) [OF ac within inv0, of "rev nodes"]
  obtain visited srt where
    r: "visit_all nodes es (rev nodes) [] ([], []) = Inr (visited, srt)"
    and i: "topo_inv nodes es [] (visited, srt)"
    and c: "set nodes \<subseteq> set srt"
    by auto
  from within have "\<not> (\<exists>e \<in> set es. fst e \<notin> set nodes \<or> snd e \<notin> set nodes)" by auto
  with r have "toposort_array nodes es = Inr srt" by (simp add: toposort_array_def)
  moreover from i c have "distinct srt" "set srt = set nodes"
    by (auto simp: topo_inv_def)
  moreover have "\<forall>(a, b) \<in> set es. precedes a b srt"
  proof (clarify)
    fix a b assume e: "(a, b) \<in> set es"
    with within c have "a \<in> set srt" by blast
    with i e show "precedes a b srt" by (auto simp: topo_inv_def)
  qed
  ultimately show "\<exists>srt. toposort_array nodes es = Inr srt \<and> distinct srt \<and> set srt = set nodes
           \<and> (\<forall>(a, b) \<in> set es. precedes a b srt)"
    by blast
qed

section \<open>The order of the merges\<close>

lemma precedes_rev:
  assumes "precedes a b xs"
  shows "precedes b a (rev xs)"
proof -
  from precedes_split [OF assms] obtain pre post where
    xs: "xs = pre @ a # post" and b: "b \<in> set post" by blast
  from b obtain p1 p2 where post: "post = p1 @ b # p2" by (auto dest: split_list)
  have "rev xs = rev p2 @ b # (rev p1 @ a # rev pre)" by (simp add: xs post)
  moreover have "a \<in> set (rev p1 @ a # rev pre)" by simp
  ultimately show ?thesis by (rule precedes_decomp)
qed

lemma precedes_map_inj:
  assumes "precedes (f a) (f b) (map f xs)"
    and "inj_on f (insert a (insert b (set xs)))"
  shows "precedes a b xs"
  using assms
proof (induction xs)
  case Nil
  then show ?case by simp
next
  case (Cons x xs)
  have inj: "inj_on f (insert a (insert b (set xs)))"
    using Cons.prems(2) by (rule inj_on_subset) auto
  show ?case
  proof (cases "x = a")
    case True
    with Cons.prems(1) have "f b \<in> f ` set xs" by simp
    then obtain y where y: "y \<in> set xs" "f y = f b" by auto
    have "y = b" by (rule inj_onD [OF Cons.prems(2) y(2)]) (use y(1) in simp_all)
    with y True show ?thesis by simp
  next
    case False
    have "f x \<noteq> f a"
    proof
      assume fx: "f x = f a"
      have "x = a" by (rule inj_onD [OF Cons.prems(2) fx]) simp_all
      with False show False by simp
    qed
    with Cons.prems(1) have "precedes (f a) (f b) (map f xs)" by simp
    from Cons.IH [OF this inj] False show ?thesis by simp
  qed
qed

lemma wf_schema_get_model:
  assumes "wf_schema schema" and "(k, m) \<in> set (models schema)"
  shows "get_model schema k = Some m" and "Model.name m = k"
  using assms by (auto simp: wf_schema_def get_model_def)

lemma wf_schema_get_modelD:
  assumes "wf_schema schema" and "get_model schema k = Some m"
  shows "(k, m) \<in> set (models schema)" and "Model.name m = k"
  using assms by (auto simp: wf_schema_def get_model_def dest: map_of_SomeD)

lemma wf_schema_names:
  assumes "wf_schema schema"
  shows "map (\<lambda>(k, model). Model.name model) (models schema) = map fst (models schema)"
  using assms by (auto simp: wf_schema_def)

lemma edges_iff:
  "(a, b) \<in> set (edges schema) \<longleftrightarrow>
     (\<exists>k A column B. (k, A) \<in> set (models schema) \<and> column \<in> set (columns A)
        \<and> relation column \<noteq> None
        \<and> get_model schema (ColumnType.name (ty column)) = Some B
        \<and> a = Model.name A \<and> b = Model.name B)"
proof
  assume "(a, b) \<in> set (edges schema)"
  then obtain k A column where A: "(k, A) \<in> set (models schema)"
    and col: "column \<in> set (columns A)"
    and e: "(a, b) \<in> set (column_edges schema A column)"
    unfolding edges_def set_concat set_map by fastforce
  have rel: "relation column \<noteq> None"
    using e by (cases "relation column") (simp_all add: column_edges_def)
  from e rel obtain B where
    "get_model schema (ColumnType.name (ty column)) = Some B"
    "a = Model.name A" "b = Model.name B"
    by (cases "get_model schema (ColumnType.name (ty column))") (auto simp: column_edges_def)
  with A col rel show "\<exists>k A column B. (k, A) \<in> set (models schema) \<and> column \<in> set (columns A)
        \<and> relation column \<noteq> None
        \<and> get_model schema (ColumnType.name (ty column)) = Some B
        \<and> a = Model.name A \<and> b = Model.name B"
    by blast
next
  assume "\<exists>k A column B. (k, A) \<in> set (models schema) \<and> column \<in> set (columns A)
        \<and> relation column \<noteq> None
        \<and> get_model schema (ColumnType.name (ty column)) = Some B
        \<and> a = Model.name A \<and> b = Model.name B"
  then obtain k A column B where A: "(k, A) \<in> set (models schema)"
    and col: "column \<in> set (columns A)" and rel: "relation column \<noteq> None"
    and B: "get_model schema (ColumnType.name (ty column)) = Some B"
    and ab: "a = Model.name A" "b = Model.name B"
    by blast
  from rel B ab have "(a, b) \<in> set (column_edges schema A column)"
    by (simp add: column_edges_def)
  with A col show "(a, b) \<in> set (edges schema)"
    by (force simp: edges_def)
qed

lemma edges_within:
  assumes "wf_schema schema"
  shows "\<forall>(a, b) \<in> set (edges schema).
     a \<in> set (map fst (models schema)) \<and> b \<in> set (map fst (models schema))"
proof (clarify)
  fix a b assume "(a, b) \<in> set (edges schema)"
  then obtain k A B and column :: Column where
    A: "(k, A) \<in> set (models schema)" and B: "get_model schema (ColumnType.name (ty column)) = Some B"
    and ab: "a = Model.name A" "b = Model.name B"
    unfolding edges_iff by blast
  from wf_schema_get_model [OF assms A] ab A have "a \<in> set (map fst (models schema))" by force
  moreover from wf_schema_get_modelD [OF assms B] ab have "b \<in> set (map fst (models schema))" by force
  ultimately show "a \<in> set (map fst (models schema)) \<and> b \<in> set (map fst (models schema))" ..
qed

lemma sortedModels_order:
  assumes c: "toposort_contract ts" and wf: "wf_schema schema"
    and ac: "acyclic (set (edges schema))"
  shows "\<exists>ms. sortedModels ts schema = Inr (map Some ms)
     \<and> distinct ms \<and> set ms = snd ` set (models schema)
     \<and> (\<forall>(k, A) \<in> set (models schema). \<forall>column \<in> set (columns A). \<forall>B.
           relation column \<noteq> None \<longrightarrow>
           get_model schema (ColumnType.name (ty column)) = Some B \<longrightarrow> precedes B A ms)"
proof -
  let ?nodes = "map fst (models schema)"
  have d: "distinct ?nodes" using wf by (simp add: wf_schema_def)
  from c [unfolded toposort_contract_def, THEN spec, THEN spec, THEN mp, THEN mp, THEN mp,
      OF d edges_within [OF wf] ac]
  obtain srt where ts: "ts ?nodes (edges schema) = Inr srt" and ds: "distinct srt"
    and ss: "set srt = set ?nodes" and ord: "\<forall>(a, b) \<in> set (edges schema). precedes a b srt"
    by blast
  define ms where "ms = rev (map (\<lambda>n. the (get_model schema n)) srt)"
  have some: "get_model schema n = Some (the (get_model schema n))" if "n \<in> set srt" for n
  proof -
    from that ss obtain m where "(n, m) \<in> set (models schema)" by auto
    from wf_schema_get_model(1) [OF wf this] show ?thesis by simp
  qed
  have name: "Model.name (the (get_model schema n)) = n" if "n \<in> set srt" for n
    using wf_schema_get_modelD(2) [OF wf some [OF that]] .
  have res: "sortedModels ts schema = Inr (map Some ms)"
  proof -
    have "map (get_model schema) srt = map Some (map (\<lambda>n. the (get_model schema n)) srt)"
      using some by (simp add: comp_def)
    then show ?thesis
      by (simp add: sortedModels_def wf_schema_names [OF wf] ts ms_def rev_map)
  qed
  have "map (\<lambda>n. Model.name (the (get_model schema n))) srt = srt"
    by (rule map_idI) (rule name)
  moreover have "map Model.name ms = rev (map (\<lambda>n. Model.name (the (get_model schema n))) srt)"
    by (simp add: ms_def rev_map comp_def)
  ultimately have names: "map Model.name ms = rev srt"
    by simp
  have dm: "distinct (map Model.name ms)" using ds by (simp add: names)
  then have dms: "distinct ms" by (rule distinct_map [THEN iffD1, THEN conjunct1])
  have inj: "inj_on Model.name (set ms)" using dm by (simp add: distinct_map)
  have set_ms: "set ms = snd ` set (models schema)"
  proof (intro equalityI subsetI)
    fix m assume "m \<in> set ms"
    then obtain n where n: "n \<in> set srt" "m = the (get_model schema n)" by (auto simp: ms_def)
    from wf_schema_get_modelD(1) [OF wf some [OF n(1)]] n(2)
    show "m \<in> snd ` set (models schema)" by force
  next
    fix m assume "m \<in> snd ` set (models schema)"
    then obtain k where km: "(k, m) \<in> set (models schema)" by auto
    then have "k \<in> set srt" using ss by force
    moreover from wf_schema_get_model(1) [OF wf km] have "the (get_model schema k) = m" by simp
    ultimately show "m \<in> set ms" by (force simp: ms_def)
  qed
  have order1: "precedes B A ms"
    if A: "(k, A) \<in> set (models schema)" and col: "column \<in> set (columns A)"
      and rel: "relation column \<noteq> None"
      and B: "get_model schema (ColumnType.name (ty column)) = Some B"
    for k A column B
  proof -
    from A col rel B have "(Model.name A, Model.name B) \<in> set (edges schema)"
      unfolding edges_iff by blast
    with ord have "precedes (Model.name A) (Model.name B) srt" by blast
    then have p: "precedes (Model.name B) (Model.name A) (map Model.name ms)"
      unfolding names by (rule precedes_rev)
    have "A \<in> set ms" using A set_ms by force
    moreover have "B \<in> set ms" using wf_schema_get_modelD(1) [OF wf B] set_ms by force
    ultimately have "inj_on Model.name (insert B (insert A (set ms)))"
      using inj by (simp add: insert_absorb)
    from precedes_map_inj [of Model.name B A ms, OF p this]
    show "precedes B A ms" .
  qed
  have order: "\<forall>(k, A) \<in> set (models schema). \<forall>column \<in> set (columns A). \<forall>B.
           relation column \<noteq> None \<longrightarrow>
           get_model schema (ColumnType.name (ty column)) = Some B \<longrightarrow> precedes B A ms"
    using order1 by blast
  from res dms set_ms order show ?thesis by blast
qed

lemma insert_stmt_hist:
  "insert_stmt drv im h s = (im', h', r) \<Longrightarrow> \<exists>ext. h' = h @ ext"
  by (auto simp: insert_stmt_eq split: if_splits option.splits)

lemma insertSupporting_hist:
  "insertSupporting drv im h s = (im', h', r) \<Longrightarrow> \<exists>ext. h' = h @ ext"
  by (auto simp: insertSupporting_eq split: if_splits option.splits)

lemma existenceCheck_hist:
  "existenceCheck drv model pk tmpl isSecondary h r = Inr (h1, ex) \<Longrightarrow> \<exists>ext. h1 = h @ ext"
  by (erule existenceCheck_cases) simp_all

lemma processRow_hist:
  assumes "processRow drv uuid model schema pk tmpl isPrimary st rr = Inr st'"
  shows "\<exists>ext. merged st' = merged st @ ext"
proof (cases rr)
  case (Inl e)
  with assms show ?thesis by (simp add: processRow_Inl)
next
  case (Inr r)
  from assms Inr obtain h1 ex where
    ec: "existenceCheck drv model pk tmpl (\<not> isPrimary) (merged st) r = Inr (h1, ex)"
    by (auto simp: processRow_def Let_def split: sum.splits)
  from existenceCheck_hist [OF ec] obtain e1 where e1: "h1 = merged st @ e1" by blast
  show ?thesis
  proof (cases ex)
    case (Some existingId)
    from assms Inr ec Some obtain im h2 n s where
      i: "insert_stmt drv (inserter st) h1 s = (im, h2, Inr n)" and m: "merged st' = h2"
      by (auto simp: processRow_def Let_def split: sum.splits prod.splits)
    from insert_stmt_hist [OF i] e1 m show ?thesis by auto
  next
    case None
    from assms Inr ec None obtain im h2 n s1 im' h3 n' s2 where
      i: "insert_stmt drv (inserter st) h1 s1 = (im, h2, Inr n)"
      and j: "insertSupporting drv im h2 s2 = (im', h3, Inr n')" and m: "merged st' = h3"
      by (auto simp: processRow_def Let_def split: sum.splits prod.splits)
    from insert_stmt_hist [OF i] insertSupporting_hist [OF j] e1 m show ?thesis by auto
  qed
qed

lemma run_callbacks_hist:
  "run_callbacks (processRow drv uuid model schema pk tmpl isPrimary) st rows = Inr st' \<Longrightarrow>
   \<exists>ext. merged st' = merged st @ ext"
proof (induction rows arbitrary: st)
  case Nil
  then show ?case by simp
next
  case (Cons rr rows)
  from Cons.prems obtain st1 where
    one: "processRow drv uuid model schema pk tmpl isPrimary st rr = Inr st1"
    and rest: "run_callbacks (processRow drv uuid model schema pk tmpl isPrimary) st1 rows = Inr st'"
    by (auto split: sum.splits)
  from processRow_hist [OF one] Cons.IH [OF rest] show ?case by auto
qed

lemma mergeSource_hist:
  assumes "mergeSource drv uuid model schema pk tmpl q conns p st i = Inr st'"
  shows "\<exists>ext. merged st' = merged st @ ext"
proof -
  from assms obtain rows st1 where
    cb: "run_callbacks (processRow drv uuid model schema pk tmpl (i = p)) st rows = Inr st1"
    and m: "merged st' = merged st1 @ [Exec (Batch (statements (inserter st1)))]"
    by (auto simp: mergeSource_def each_def flush_eq
        split: if_splits sum.splits prod.splits option.splits)
  from run_callbacks_hist [OF cb] m show ?thesis by auto
qed

lemma mergeSources_hist:
  "mergeSources drv uuid model schema pk tmpl q conns p st order = Inr st' \<Longrightarrow>
   \<exists>ext. merged st' = merged st @ ext"
proof (induction order arbitrary: st)
  case Nil
  then show ?case by simp
next
  case (Cons i order)
  from Cons.prems obtain st1 where
    one: "mergeSource drv uuid model schema pk tmpl q conns p st i = Inr st1"
    and rest: "mergeSources drv uuid model schema pk tmpl q conns p st1 order = Inr st'"
    by (auto split: sum.splits)
  from mergeSource_hist [OF one] Cons.IH [OF rest] show ?case by auto
qed

lemma mergeModel_segment:
  assumes "mergeModel drv uuid model schema conns T h0 k0 = Inr res"
  shows "\<exists>seg. r_merged res = h0 @ seg \<and> merge_segment model seg"
  using assms
proof (rule mergeModel_InrE)
  fix pk tmpl t p pc st
  assume ms: "mergeSources drv uuid model schema pk tmpl (selectQuery model schema pk) conns p
       \<lparr>inserter = new_InsertManager T, merged = h0 @ [Exec (CreateMapTable (mapTable_name model))],
        minted = k0, progress = []\<rparr>
       (sortedConnections p conns) = Inr st"
    and res: "res = \<lparr>r_merged = merged st @ [Exec (Batch (statements (inserter st))),
                           Exec (CreateMapIndices (mapTable_name model))],
            r_minted = minted st, r_progress = progress st @ [count (inserter st)],
            r_totalRows = t, r_order = sortedConnections p conns\<rparr>"
  from mergeSources_hist [OF ms] obtain ext where
    ext: "merged st = (h0 @ [Exec (CreateMapTable (mapTable_name model))]) @ ext" by auto
  let ?seg = "Exec (CreateMapTable (mapTable_name model)) # ext @
      [Exec (Batch (statements (inserter st))), Exec (CreateMapIndices (mapTable_name model))]"
  have "r_merged res = h0 @ ?seg" by (simp add: res ext)
  moreover have "merge_segment model ?seg" by (simp add: merge_segment_def)
  ultimately show ?thesis by blast
qed

lemma mergeModels_segments:
  "mergeModels drv uuid schema conns T (h, k, rs) (map Some ms) = Inr (h', k', rs') \<Longrightarrow>
   \<exists>segs. h' = h @ concat segs \<and> list_all2 merge_segment ms segs"
proof (induction ms arbitrary: h k rs)
  case Nil
  then show ?case by simp
next
  case (Cons m ms)
  from Cons.prems obtain res where
    one: "mergeModel drv uuid m schema conns T h k = Inr res"
    and rest: "mergeModels drv uuid schema conns T (r_merged res, r_minted res, rs @ [res])
        (map Some ms) = Inr (h', k', rs')"
    by (auto split: sum.splits)
  from mergeModel_segment [OF one] obtain seg where
    seg: "r_merged res = h @ seg" "merge_segment m seg" by blast
  from Cons.IH [OF rest] obtain segs where
    segs: "h' = r_merged res @ concat segs" "list_all2 merge_segment ms segs" by blast
  have "h' = h @ concat (seg # segs)" using seg(1) segs(1) by simp
  moreover have "list_all2 merge_segment (m # ms) (seg # segs)" using seg(2) segs(2) by simp
  ultimately show ?case by blast
qed

lemma prismerge_segments:
  assumes "prismerge drv uuid ts schema conns T h0 k0 = Inr (h, k, results)"
    and "sortedModels ts schema = Inr (map Some ms)"
  shows "\<exists>pre segs. h = pre @ concat segs @ [Exec SafePragmas] \<and> list_all2 merge_segment ms segs"
proof -
  note defs = prismerge_def execOrError_eq assms(2)
  have fp: "exec_outcome drv h0 FastPragmas = None"
    using assms(1) by (cases "exec_outcome drv h0 FastPragmas") (simp_all add: defs)
  obtain conn0 rest where conns: "conns = conn0 # rest"
    using assms(1) fp by (cases conns) (simp_all add: defs)
  obtain h2 where cat: "each conn0 SelectCatalog (copyCatalogRow drv) (h0 @ [Exec FastPragmas]) = Inr h2"
    using assms(1) fp conns
    by (cases "each conn0 SelectCatalog (copyCatalogRow drv) (h0 @ [Exec FastPragmas])")
      (simp_all add: defs)
  obtain h3 k' rs where
    mm: "mergeModels drv uuid schema conns T (h2, k0, []) (map Some ms) = Inr (h3, k', rs)"
    using assms(1) fp conns cat
    by (cases "mergeModels drv uuid schema conns T (h2, k0, []) (map Some ms)")
      (auto simp: defs)
  have "h = h3 @ [Exec SafePragmas]"
    using assms(1) fp conns cat mm
    by (cases "exec_outcome drv h3 SafePragmas") (simp_all add: defs)
  with mergeModels_segments [OF mm] show ?thesis by auto
qed

lemma segments_precedes:
  assumes "list_all2 merge_segment ms segs" and "precedes B A ms"
  shows "\<exists>h1 sB h2 sA h3. concat segs = h1 @ sB @ h2 @ sA @ h3
     \<and> merge_segment B sB \<and> merge_segment A sA"
proof -
  from precedes_split [OF assms(2)] obtain pre post where
    ms: "ms = pre @ B # post" and A: "A \<in> set post" by blast
  from A obtain p1 p2 where post: "post = p1 @ A # p2" by (auto dest: split_list)
  from assms(1) [unfolded ms post]
  obtain s1 sB s2 sA s3 where "segs = s1 @ sB # s2 @ sA # s3"
    "merge_segment B sB" "merge_segment A sA"
    by (auto simp: list_all2_append1 list_all2_Cons1)
  then have "concat segs = concat s1 @ sB @ concat s2 @ sA @ concat s3
     \<and> merge_segment B sB \<and> merge_segment A sA"
    by simp
  then show ?thesis by blast
qed

text \<open>
  Claim C2.  With a \<^verbatim>\<open>toposort.array\<close> that meets its contract, for every schema as
  \<^verbatim>\<open>getSchema\<close> builds it whose relation graph has no cycle, \<^verbatim>\<open>Schema.sortedModels\<close>
  returns the models of the schema, each once, and for every column with a relation
  whose type names a model \<open>B\<close>, on a model \<open>A\<close>, \<open>B\<close> stands before \<open>A\<close>.  In
  the history of a \<^verbatim>\<open>prismerge\<close> that ends, the part that the merge of \<open>B\<close> wrote,
  from the creation of its map table to the creation of its indices, lies before the
  part that the merge of \<open>A\<close> wrote.
\<close>

theorem sortedModels_parents_first:
  assumes "toposort_contract ts" and "wf_schema schema" and "acyclic (set (edges schema))"
  shows "\<exists>ms. sortedModels ts schema = Inr (map Some ms)
     \<and> distinct ms \<and> set ms = snd ` set (models schema)
     \<and> (\<forall>(k, A) \<in> set (models schema). \<forall>column \<in> set (columns A). \<forall>B.
           relation column \<noteq> None \<longrightarrow>
           get_model schema (ColumnType.name (ty column)) = Some B \<longrightarrow>
           precedes B A ms
           \<and> (\<forall>drv uuid conns T h0 k0 h k results.
                 prismerge drv uuid ts schema conns T h0 k0 = Inr (h, k, results) \<longrightarrow>
                 (\<exists>h1 sB h2 sA h3. h = h1 @ sB @ h2 @ sA @ h3
                    \<and> merge_segment B sB \<and> merge_segment A sA)))"
proof -
  from sortedModels_order [OF assms] obtain ms where
    sm: "sortedModels ts schema = Inr (map Some ms)"
    and d: "distinct ms" and s: "set ms = snd ` set (models schema)"
    and ord: "\<forall>(k, A) \<in> set (models schema). \<forall>column \<in> set (columns A). \<forall>B.
           relation column \<noteq> None \<longrightarrow>
           get_model schema (ColumnType.name (ty column)) = Some B \<longrightarrow> precedes B A ms"
    by blast
  have tr: "\<exists>h1 sB h2 sA h3. h = h1 @ sB @ h2 @ sA @ h3
                    \<and> merge_segment B sB \<and> merge_segment A sA"
    if p: "precedes B A ms"
      and run: "prismerge drv uuid ts schema conns T h0 k0 = Inr (h, k, results)"
    for A B drv uuid conns T h0 k0 h k results
  proof -
    from prismerge_segments [OF run sm] obtain pre segs where
      h: "h = pre @ concat segs @ [Exec SafePragmas]" and l: "list_all2 merge_segment ms segs"
      by blast
    from segments_precedes [OF l p] obtain h1 sB h2 sA h3 where
      c: "concat segs = h1 @ sB @ h2 @ sA @ h3" and m: "merge_segment B sB" "merge_segment A sA"
      by blast
    have "h = (pre @ h1) @ sB @ h2 @ sA @ (h3 @ [Exec SafePragmas])"
      by (simp add: h c)
    with m show ?thesis by blast
  qed
  define Q where "Q = (\<lambda>A B. precedes B A ms
           \<and> (\<forall>drv uuid conns T h0 k0 h k results.
                 prismerge drv uuid ts schema conns T h0 k0 = Inr (h, k, results) \<longrightarrow>
                 (\<exists>h1 sB h2 sA h3. h = h1 @ sB @ h2 @ sA @ h3
                    \<and> merge_segment B sB \<and> merge_segment A sA)))"
  have q: "Q A B" if "precedes B A ms" for A B
    unfolding Q_def using that tr [OF that] by (intro conjI allI impI)
  have "\<forall>(k, A) \<in> set (models schema). \<forall>column \<in> set (columns A). \<forall>B.
           relation column \<noteq> None \<longrightarrow>
           get_model schema (ColumnType.name (ty column)) = Some B \<longrightarrow> Q A B"
    using ord q by fast
  with sm d s have "\<exists>ms'. sortedModels ts schema = Inr (map Some ms')
     \<and> distinct ms' \<and> set ms' = snd ` set (models schema)
     \<and> (\<forall>(k, A) \<in> set (models schema). \<forall>column \<in> set (columns A). \<forall>B.
           relation column \<noteq> None \<longrightarrow>
           get_model schema (ColumnType.name (ty column)) = Some B \<longrightarrow>
           (\<lambda>A B. precedes B A ms'
           \<and> (\<forall>drv uuid conns T h0 k0 h k results.
                 prismerge drv uuid ts schema conns T h0 k0 = Inr (h, k, results) \<longrightarrow>
                 (\<exists>h1 sB h2 sA h3. h = h1 @ sB @ h2 @ sA @ h3
                    \<and> merge_segment B sB \<and> merge_segment A sA))) A B)"
    unfolding Q_def by (intro exI [of _ ms] conjI)
  then show ?thesis by simp
qed

lemma prismerge_test_run:
  "markers (fst (projr
       (prismerge ok_driver test_uuid toposort_array test_schema [first_db, second_db] 1000 [] 0)))
     = [Exec (CreateMapTable ''Owner_id_map''), Exec (CreateMapIndices ''Owner_id_map''),
        Exec (CreateMapTable ''TodoList_id_map''), Exec (CreateMapIndices ''TodoList_id_map'')]"
proof -
  have e: "edges test_schema = [(''TodoList'', ''Owner'')]"
    by (simp add: edges_def column_edges_def get_model_def test_schema_def owner_model_def
        todoList_model_def string_type_def)
  have nodes: "map (\<lambda>(k, model). Model.name model) (models test_schema) = [''Owner'', ''TodoList'']"
    by (simp add: test_schema_def owner_model_def todoList_model_def)
  have gm: "get_model test_schema ''Owner'' = Some owner_model"
    "get_model test_schema ''TodoList'' = Some todoList_model"
    by (simp_all add: get_model_def test_schema_def)
  have sm: "sortedModels toposort_array test_schema = Inr [Some owner_model, Some todoList_model]"
    by (simp add: sortedModels_def e nodes gm toposort_array_def children_def)
  have cat: "each first_db SelectCatalog (copyCatalogRow ok_driver) h = Inr h" for h
    by (simp add: each_def first_db_def table_source_def copyCatalogRow_def owner_row_def)
  have ok: "exec_outcome ok_driver h q = None" for h q
    by (simp add: ok_driver_def)
  have "\<exists>res. mergeModel ok_driver test_uuid owner_model test_schema [first_db, second_db] 1000 h k
      = Inr res \<and> markers (r_merged res) = markers h @
        [Exec (CreateMapTable ''Owner_id_map''), Exec (CreateMapIndices ''Owner_id_map'')]" for h k
    by (simp add: eval_defs markers_def)
  then obtain res1 where
    r1: "mergeModel ok_driver test_uuid owner_model test_schema [first_db, second_db] 1000
        [Exec FastPragmas] 0 = Inr res1"
    and m1: "markers (r_merged res1) = markers [Exec FastPragmas] @
        [Exec (CreateMapTable ''Owner_id_map''), Exec (CreateMapIndices ''Owner_id_map'')]"
    by blast
  have "\<exists>res. mergeModel ok_driver test_uuid todoList_model test_schema [first_db, second_db] 1000 h k
      = Inr res \<and> markers (r_merged res) = markers h @
        [Exec (CreateMapTable ''TodoList_id_map''), Exec (CreateMapIndices ''TodoList_id_map'')]" for h k
    by (simp add: eval_defs markers_def)
  then obtain res2 where
    r2: "mergeModel ok_driver test_uuid todoList_model test_schema [first_db, second_db] 1000
        (r_merged res1) (r_minted res1) = Inr res2"
    and m2: "markers (r_merged res2) = markers (r_merged res1) @
        [Exec (CreateMapTable ''TodoList_id_map''), Exec (CreateMapIndices ''TodoList_id_map'')]"
    by blast
  have "prismerge ok_driver test_uuid toposort_array test_schema [first_db, second_db] 1000 [] 0
      = Inr (r_merged res2 @ [Exec SafePragmas], r_minted res2, [res1, res2])"
    by (simp add: prismerge_def sm cat execOrError_eq ok r1 r2)
  then show ?thesis
    using m1 m2 by (simp add: markers_def)
qed

theorem sortedModels_parents_first_witness:
  "toposort_contract toposort_array
   \<and> wf_schema test_schema
   \<and> edges test_schema = [(''TodoList'', ''Owner'')]
   \<and> acyclic (set (edges test_schema))
   \<and> sortedModels toposort_array test_schema = Inr [Some owner_model, Some todoList_model]
   \<and> precedes owner_model todoList_model [owner_model, todoList_model]
   \<and> markers (fst (projr
       (prismerge ok_driver test_uuid toposort_array test_schema [first_db, second_db] 1000 [] 0)))
     = [Exec (CreateMapTable ''Owner_id_map''), Exec (CreateMapIndices ''Owner_id_map''),
        Exec (CreateMapTable ''TodoList_id_map''), Exec (CreateMapIndices ''TodoList_id_map'')]"
proof -
  have wf: "wf_schema test_schema"
    by (simp add: wf_schema_def test_schema_def owner_model_def todoList_model_def)
  have e: "edges test_schema = [(''TodoList'', ''Owner'')]"
    by (simp add: edges_def column_edges_def get_model_def test_schema_def owner_model_def
        todoList_model_def string_type_def)
  have "acyclic ({} :: (string \<times> string) set)"
    by (simp add: acyclic_def)
  then have "acyclic (insert (''TodoList'', ''Owner'') ({} :: (string \<times> string) set))"
    unfolding acyclic_insert by simp
  then have ac: "acyclic (set (edges test_schema))"
    by (simp only: e list.set)
  have nodes: "map (\<lambda>(k, model). Model.name model) (models test_schema) = [''Owner'', ''TodoList'']"
    by (simp add: test_schema_def owner_model_def todoList_model_def)
  have gm: "get_model test_schema ''Owner'' = Some owner_model"
    "get_model test_schema ''TodoList'' = Some todoList_model"
    by (simp_all add: get_model_def test_schema_def)
  have sm: "sortedModels toposort_array test_schema = Inr [Some owner_model, Some todoList_model]"
    by (simp add: sortedModels_def e nodes gm toposort_array_def children_def)
  have p: "precedes owner_model todoList_model [owner_model, todoList_model]"
    by simp
  from sortedModels_parents_first [OF toposort_array_contract wf ac] toposort_array_contract
    wf e ac sm p prismerge_test_run
  show ?thesis by simp
qed

end
